theory Spec2Isabelle
  imports Complex_Main "HOL-Library.Monad_Syntax"
begin

section \<open>Dense fields: \<open>Vector3\<close> (src/Vector3.cpp)\<close>

text \<open>
  A \<open>Vector3\<close> owns three extents \<open>dims[0..2]\<close> and a flat buffer \<open>values\<close>.
  The C++ \<open>double\<close> is idealised as a real number: every statement below is about the
  arithmetic the kernels spell out, not about IEEE rounding.
  Coordinates are C++ \<open>std::size_t\<close> values; they are modelled as integers and the
  64-bit wrap-around of the index computation is written out, so that a coordinate
  \<open>x + dx\<close> with a negative offset behaves as in the program.
  A failed \<open>assert\<close> (and every other out-of-bounds access) is the result \<open>None\<close>.
\<close>

record Vector3 =
  dimX :: nat
  dimY :: nat
  dimZ :: nat
  vals :: "real list"

definition flat_index :: "Vector3 \<Rightarrow> int \<Rightarrow> int \<Rightarrow> int \<Rightarrow> int" where
  "flat_index v x y z =
     ((z * int (dimX v) * int (dimY v)) + (y * int (dimX v)) + x) mod 2 ^ 64"

definition Vector3_set :: "Vector3 \<Rightarrow> int \<Rightarrow> int \<Rightarrow> int \<Rightarrow> real \<Rightarrow> Vector3 option" where
  "Vector3_set v x y z val =
     (let idx = flat_index v x y z in
      if idx < int (length (vals v))
      then Some (v\<lparr>vals := (vals v)[nat idx := val]\<rparr>)
      else None)"

definition Vector3_get :: "Vector3 \<Rightarrow> int \<Rightarrow> int \<Rightarrow> int \<Rightarrow> real option" where
  "Vector3_get v x y z =
     (let idx = flat_index v x y z in
      if idx < int (length (vals v))
      then Some (vals v ! nat idx)
      else None)"

text \<open>
  The constructor \<open>Vector3(x, y, z)\<close>: \<open>values.resize(x * y * z)\<close> value-initialises to 0;
  the product is a \<open>std::size_t\<close>.
\<close>

definition Vector3_new :: "nat \<Rightarrow> nat \<Rightarrow> nat \<Rightarrow> Vector3" where
  "Vector3_new x y z =
     \<lparr>dimX = x, dimY = y, dimZ = z, vals = replicate ((x * y * z) mod 2 ^ 64) 0\<rparr>"

section \<open>Loops\<close>

text \<open>
  \<open>for (x = lo; x < hi; x += step) body\<close> over a state, stopping at the first failure.
  Every loop of the source has a positive literal step.
\<close>

function for_loop :: "int \<Rightarrow> int \<Rightarrow> int \<Rightarrow> (int \<Rightarrow> 's \<Rightarrow> 's option) \<Rightarrow> 's \<Rightarrow> 's option" where
  "for_loop step x hi body s =
     (if 0 < step \<and> x < hi
      then (case body x s of None \<Rightarrow> None | Some s' \<Rightarrow> for_loop step (x + step) hi body s')
      else Some s)"
  by pat_completeness auto
termination
  by (relation "measure (\<lambda>(step, x, hi, body, s). nat (hi - x))") auto

declare for_loop.simps [simp del]

section \<open>The residual reduction buffer (src/cpu/CpuSolver.cpp, compResidual)\<close>

definition CACHE_LINE_SIZE :: nat where
  "CACHE_LINE_SIZE = 64"

text \<open>\<open>sizeof(double)\<close> is 8.\<close>

definition THREAD_OFFSET :: nat where
  "THREAD_OFFSET = CACHE_LINE_SIZE div 8"

definition shards_init :: "real list" where
  "shards_init = replicate (16 * THREAD_OFFSET) 0"

text \<open>\<open>omp_rank = omp_get_thread_num() * THREAD_OFFSET\<close>\<close>

definition omp_rank :: "nat \<Rightarrow> nat" where
  "omp_rank tid = tid * THREAD_OFFSET"

text \<open>\<open>shards[omp_rank] += r * r\<close>; an index beyond the vector is undefined behaviour.\<close>

definition shards_add :: "real list \<Rightarrow> nat \<Rightarrow> real \<Rightarrow> real list option" where
  "shards_add shards rank a =
     (if rank < length shards then Some (shards[rank := shards ! rank + a]) else None)"


section \<open>The rest of \<open>Vector3\<close>, the stencil and the grid hierarchy\<close>

text \<open>
  Modelled from the spec: the inline members of \<open>Vector3\<close> declared in Vector3.h
  (\<open>getXdim\<close>, \<open>getYdim\<close>, \<open>getZdim\<close>, \<open>flatSize\<close>, \<open>fill\<close>, \<open>+=\<close>, \<open>-=\<close>).
  "Dimension accessors"; "fill(val)"; "Elementwise \<open>+=\<close> and \<open>-=\<close> require matching
  extents", a violated precondition being a failed assertion.
\<close>

definition flatSize :: "Vector3 \<Rightarrow> nat" where
  "flatSize v = length (vals v)"

definition Vector3_fill :: "Vector3 \<Rightarrow> real \<Rightarrow> Vector3" where
  "Vector3_fill v val = v\<lparr>vals := map (\<lambda>_. val) (vals v)\<rparr>"

definition same_extent :: "Vector3 \<Rightarrow> Vector3 \<Rightarrow> bool" where
  "same_extent a b \<longleftrightarrow>
     dimX a = dimX b \<and> dimY a = dimY b \<and> dimZ a = dimZ b \<and> length (vals a) = length (vals b)"

definition Vector3_add :: "Vector3 \<Rightarrow> Vector3 \<Rightarrow> Vector3 option" where
  "Vector3_add a b =
     (if same_extent a b then Some (a\<lparr>vals := map2 (+) (vals a) (vals b)\<rparr>) else None)"

definition Vector3_sub :: "Vector3 \<Rightarrow> Vector3 \<Rightarrow> Vector3 option" where
  "Vector3_sub a b =
     (if same_extent a b then Some (a\<lparr>vals := map2 (-) (vals a) (vals b)\<rparr>) else None)"

text \<open>
  Modelled from the spec: the stencil of Stencil.h, "an ordered list of N entries, each a
  weight and an offset triple", held as the two containers \<open>values\<close> and \<open>offsets\<close> that
  main.cpp fills. "Accessors return weight[i], xOffset[i], yOffset[i], zOffset[i]."
\<close>

record Stencil =
  stencil_values :: "real list"
  stencil_offsets :: "(int \<times> int \<times> int) list"

definition getXOffset :: "Stencil \<Rightarrow> nat \<Rightarrow> int option" where
  "getXOffset st i =
     (if i < length (stencil_offsets st) then Some (fst (stencil_offsets st ! i)) else None)"

definition getYOffset :: "Stencil \<Rightarrow> nat \<Rightarrow> int option" where
  "getYOffset st i =
     (if i < length (stencil_offsets st) then Some (fst (snd (stencil_offsets st ! i))) else None)"

definition getZOffset :: "Stencil \<Rightarrow> nat \<Rightarrow> int option" where
  "getZOffset st i =
     (if i < length (stencil_offsets st) then Some (snd (snd (stencil_offsets st ! i))) else None)"

text \<open>
  Modelled from the spec: \<open>CpuGridData\<close> and its \<open>LevelData\<close> (CpuGridData.h), with the
  members the solver reads. \<open>levelDim\<close> is the extent of interior points, the fields
  \<open>v\<close>, \<open>f\<close>, \<open>r\<close>, \<open>e\<close>, \<open>restV\<close> are separate objects owned by the level.
\<close>

record LevelData =
  levelDimX :: nat
  levelDimY :: nat
  levelDimZ :: nat
  level_v :: Vector3
  level_f :: Vector3
  level_r :: Vector3
  level_e :: Vector3
  level_restV :: Vector3
  level_h :: real

record CpuGridData =
  levels :: "LevelData list"
  stencil :: Stencil
  isLinear :: bool
  gamma :: real
  omega :: real
  preSmoothing :: nat
  postSmoothing :: nat
  maxiter :: nat

definition numLevels :: "CpuGridData \<Rightarrow> nat" where
  "numLevels grid = length (levels grid)"

definition getLevel :: "CpuGridData \<Rightarrow> nat \<Rightarrow> LevelData option" where
  "getLevel grid i = (if i < length (levels grid) then Some (levels grid ! i) else None)"

text \<open>
  The kernels mutate a level through the reference \<open>getLevel\<close> returns; the model
  writes the updated level back.
\<close>

definition putLevel :: "CpuGridData \<Rightarrow> nat \<Rightarrow> LevelData \<Rightarrow> CpuGridData" where
  "putLevel grid i level = grid\<lparr>levels := (levels grid)[i := level]\<rparr>"

section \<open>The kernels (src/cpu/CpuSolver.cpp)\<close>

text \<open>
  The stencil sum of one point:
  \<open>for (i = 0; i < values.size(); i++) stencilsum += values[i] * v.get(x + dx, y + dy, z + dz)\<close>.
\<close>

definition stencil_term :: "Stencil \<Rightarrow> Vector3 \<Rightarrow> int \<Rightarrow> int \<Rightarrow> int \<Rightarrow> int \<Rightarrow> real \<Rightarrow> real option" where
  "stencil_term st vin x y z i stencilsum = do {
     dx \<leftarrow> getXOffset st (nat i);
     dy \<leftarrow> getYOffset st (nat i);
     dz \<leftarrow> getZOffset st (nat i);
     vVal \<leftarrow> Vector3_get vin (x + dx) (y + dy) (z + dz);
     Some (stencilsum + stencil_values st ! nat i * vVal)
   }"

definition stencil_sum :: "Stencil \<Rightarrow> Vector3 \<Rightarrow> int \<Rightarrow> int \<Rightarrow> int \<Rightarrow> real option" where
  "stencil_sum st vin x y z =
     for_loop 1 0 (int (length (stencil_values st))) (stencil_term st vin x y z) 0"

text \<open>
  The body of the innermost loop of \<open>compResidual\<close>. The state is the level and the
  reduction buffer; \<open>rank\<close> is \<open>omp_rank\<close> of the thread that runs plane \<open>x\<close>.
\<close>

definition compResidual_point ::
  "CpuGridData \<Rightarrow> nat \<Rightarrow> int \<Rightarrow> int \<Rightarrow> int \<Rightarrow> LevelData \<times> real list \<Rightarrow> (LevelData \<times> real list) option" where
  "compResidual_point grid rank x y z = (\<lambda>(level, shards). do {
     stencilsum \<leftarrow> stencil_sum (stencil grid) (level_v level) x y z;
     let stencilsum = stencilsum / (level_h level * level_h level);
     stencilsum \<leftarrow>
       (if \<not> isLinear grid then do {
          v1 \<leftarrow> Vector3_get (level_v level) x y z;
          let ex = exp v1;
          v2 \<leftarrow> Vector3_get (level_v level) x y z;
          let nonLinear = gamma grid * v2 * ex;
          Some (stencilsum + nonLinear)
        } else Some stencilsum);
     fv \<leftarrow> Vector3_get (level_f level) x y z;
     let r = fv - stencilsum;
     r' \<leftarrow> Vector3_set (level_r level) x y z r;
     shards' \<leftarrow> shards_add shards rank (r * r);
     Some (level\<lparr>level_r := r'\<rparr>, shards')
   })"

text \<open>
  \<open>compResidual\<close>. The planes \<open>x\<close> are distributed over OpenMP threads; \<open>thr x\<close> is the
  number \<open>omp_get_thread_num()\<close> of the thread that runs plane \<open>x\<close>, a parameter of the
  model. Writes of different planes are to different cells and different buffer slots
  are added up at the end, so the planes are run one after the other.
\<close>

definition compResidual :: "(int \<Rightarrow> nat) \<Rightarrow> CpuGridData \<Rightarrow> nat \<Rightarrow> (real \<times> CpuGridData) option" where
  "compResidual thr grid levelNum = do {
     level \<leftarrow> getLevel grid levelNum;
     (level', shards) \<leftarrow>
       for_loop 1 1 (int (levelDimX level) + 1) (\<lambda>x.
         for_loop 1 1 (int (levelDimY level) + 1) (\<lambda>y.
           for_loop 1 1 (int (levelDimZ level) + 1) (\<lambda>z.
             compResidual_point grid (omp_rank (thr x)) x y z)))
         (level, shards_init);
     res \<leftarrow> for_loop (int THREAD_OFFSET) 0 (int (length shards))
               (\<lambda>i res. Some (res + shards ! nat i)) 0;
     Some (sqrt res, putLevel grid levelNum level')
   }"

text \<open>The body of the innermost loop of \<open>jacobi\<close>.\<close>

definition jacobi_point ::
  "CpuGridData \<Rightarrow> real \<Rightarrow> real \<Rightarrow> int \<Rightarrow> int \<Rightarrow> int \<Rightarrow> LevelData \<Rightarrow> LevelData option" where
  "jacobi_point grid preFac alpha x y z level = do {
     newV \<leftarrow>
       (if isLinear grid then do {
          v1 \<leftarrow> Vector3_get (level_v level) x y z;
          r1 \<leftarrow> Vector3_get (level_r level) x y z;
          Some (v1 + omega grid * (alpha * r1))
        } else do {
          v1 \<leftarrow> Vector3_get (level_v level) x y z;
          let ex = exp v1;
          v2 \<leftarrow> Vector3_get (level_v level) x y z;
          let denuminator = preFac + gamma grid * (1 + v2) * ex;
          v3 \<leftarrow> Vector3_get (level_v level) x y z;
          r1 \<leftarrow> Vector3_get (level_r level) x y z;
          Some (v3 + omega grid * (r1 / denuminator))
        });
     v' \<leftarrow> Vector3_set (level_v level) x y z newV;
     Some (level\<lparr>level_v := v'\<rparr>)
   }"

text \<open>One pass of the sweep loop of \<open>jacobi\<close>: the residual, then the update of every interior point.\<close>

definition jacobi_sweep :: "(int \<Rightarrow> nat) \<Rightarrow> nat \<Rightarrow> real \<Rightarrow> real \<Rightarrow> CpuGridData \<Rightarrow> CpuGridData option" where
  "jacobi_sweep thr levelNum preFac alpha grid = do {
     (res, grid) \<leftarrow> compResidual thr grid levelNum;
     level \<leftarrow> getLevel grid levelNum;
     level' \<leftarrow>
       for_loop 1 1 (int (levelDimX level) + 1) (\<lambda>x.
         for_loop 1 1 (int (levelDimY level) + 1) (\<lambda>y.
           for_loop 1 1 (int (levelDimZ level) + 1) (\<lambda>z.
             jacobi_point grid preFac alpha x y z)))
         level;
     Some (putLevel grid levelNum level')
   }"

definition jacobi :: "(int \<Rightarrow> nat) \<Rightarrow> CpuGridData \<Rightarrow> nat \<Rightarrow> nat \<Rightarrow> CpuGridData option" where
  "jacobi thr grid levelNum maxit = do {
     level \<leftarrow> getLevel grid levelNum;
     w0 \<leftarrow> (if 0 < length (stencil_values (stencil grid))
            then Some (stencil_values (stencil grid) ! 0) else None);
     let preFac = w0 / (level_h level * level_h level);
     let alpha = (level_h level * level_h level) / w0;
     for_loop 1 0 (int maxit) (\<lambda>i. jacobi_sweep thr levelNum preFac alpha) grid
   }"

text \<open>The body of the innermost loop of \<open>applyStencil\<close>; \<open>vin\<close> is the argument \<open>v\<close>.\<close>

definition applyStencil_point ::
  "CpuGridData \<Rightarrow> Vector3 \<Rightarrow> int \<Rightarrow> int \<Rightarrow> int \<Rightarrow> LevelData \<Rightarrow> LevelData option" where
  "applyStencil_point grid vin x y z level = do {
     stencilsum \<leftarrow> stencil_sum (stencil grid) vin x y z;
     let stencilsum = stencilsum / (level_h level * level_h level);
     v1 \<leftarrow> Vector3_get vin x y z;
     v2 \<leftarrow> Vector3_get vin x y z;
     let nonLinear = gamma grid * v1 * exp v2;
     let stencilsum = stencilsum + nonLinear;
     result \<leftarrow> Vector3_set (level_r level) x y z stencilsum;
     Some (level\<lparr>level_r := result\<rparr>)
   }"

definition applyStencil :: "CpuGridData \<Rightarrow> nat \<Rightarrow> Vector3 \<Rightarrow> CpuGridData option" where
  "applyStencil grid levelNum vin = do {
     level \<leftarrow> getLevel grid levelNum;
     _ \<leftarrow> (if flatSize (level_v level) = flatSize vin then Some () else None);
     level' \<leftarrow>
       for_loop 1 1 (int (levelDimX level) + 1) (\<lambda>x.
         for_loop 1 1 (int (levelDimY level) + 1) (\<lambda>y.
           for_loop 1 1 (int (levelDimZ level) + 1) (\<lambda>z.
             applyStencil_point grid vin x y z)))
         level;
     Some (putLevel grid levelNum level')
   }"

text \<open>
  \<open>restrict\<close>. \<open>restrict_fac\<close> is the weight \<open>fac\<close>, \<open>restrict_value\<close> the three loops
  over \<open>ii\<close>, \<open>jj\<close>, \<open>kk\<close> that accumulate \<open>coarseValue\<close>. The loop bounds
  \<open>getXdim() - 1\<close> are unsigned.
\<close>

definition restrict_fac :: "int \<Rightarrow> int \<Rightarrow> int \<Rightarrow> real" where
  "restrict_fac ii jj kk =
     0.125 * ((2.0 - real_of_int \<bar>ii\<bar>) / 2.0) * ((2.0 - real_of_int \<bar>jj\<bar>) / 2.0)
           * ((2.0 - real_of_int \<bar>kk\<bar>) / 2.0)"

definition restrict_value :: "Vector3 \<Rightarrow> int \<Rightarrow> int \<Rightarrow> int \<Rightarrow> real option" where
  "restrict_value fine xCenter yCenter zCenter =
     for_loop 1 (-2 + 1) 2 (\<lambda>ii.
       for_loop 1 (-2 + 1) 2 (\<lambda>jj.
         for_loop 1 (-2 + 1) 2 (\<lambda>kk coarseValue. do {
           let fac = restrict_fac ii jj kk;
           fv \<leftarrow> Vector3_get fine (xCenter + ii) (yCenter + jj) (zCenter + kk);
           Some (coarseValue + fac * fv)
         })))
       0.0"

definition restrict_point :: "Vector3 \<Rightarrow> int \<Rightarrow> int \<Rightarrow> int \<Rightarrow> Vector3 \<Rightarrow> Vector3 option" where
  "restrict_point fine x y z coarse = do {
     let xCenter = 2 * x;
     let yCenter = 2 * y;
     let zCenter = 2 * z;
     coarseValue \<leftarrow> restrict_value fine xCenter yCenter zCenter;
     Vector3_set coarse x y z coarseValue
   }"

definition restrict :: "Vector3 \<Rightarrow> Vector3 \<Rightarrow> Vector3 option" where
  "restrict fine coarse =
     for_loop 1 1 ((int (dimX coarse) - 1) mod 2 ^ 64) (\<lambda>x.
       for_loop 1 1 ((int (dimY coarse) - 1) mod 2 ^ 64) (\<lambda>y.
         for_loop 1 1 ((int (dimZ coarse) - 1) mod 2 ^ 64) (\<lambda>z.
           restrict_point fine x y z)))
       coarse"

text \<open>
  \<open>interpolate\<close>: the four passes over the correction field \<open>e\<close> of the finer level.
  \<open>coarse\<close> is the field \<open>v\<close> of the next level, another object than \<open>fine\<close>.
\<close>

definition interpolate_prepare :: "Vector3 \<Rightarrow> Vector3 \<Rightarrow> Vector3 option" where
  "interpolate_prepare coarse fine0 =
     for_loop 2 0 ((int (dimX fine0) - 1) mod 2 ^ 64) (\<lambda>x.
       for_loop 2 0 ((int (dimY fine0) - 1) mod 2 ^ 64) (\<lambda>y.
         for_loop 2 0 ((int (dimZ fine0) - 1) mod 2 ^ 64) (\<lambda>z fine. do {
           val \<leftarrow> Vector3_get coarse (x div 2) (y div 2) (z div 2);
           Vector3_set fine x y z val
         })))
       fine0"

definition interpolate_x :: "Vector3 \<Rightarrow> Vector3 option" where
  "interpolate_x fine0 =
     for_loop 2 0 (int (dimX fine0) - 2) (\<lambda>x.
       for_loop 2 0 (int (dimY fine0)) (\<lambda>y.
         for_loop 2 0 (int (dimZ fine0)) (\<lambda>z fine. do {
           a \<leftarrow> Vector3_get fine x y z;
           b \<leftarrow> Vector3_get fine (x + 2) y z;
           let val = 0.5 * a + 0.5 * b;
           Vector3_set fine (x + 1) y z val
         })))
       fine0"

definition interpolate_y :: "Vector3 \<Rightarrow> Vector3 option" where
  "interpolate_y fine0 =
     for_loop 1 0 (int (dimX fine0)) (\<lambda>x.
       for_loop 2 0 (int (dimY fine0) - 2) (\<lambda>y.
         for_loop 2 0 (int (dimZ fine0)) (\<lambda>z fine. do {
           a \<leftarrow> Vector3_get fine x y z;
           b \<leftarrow> Vector3_get fine x (y + 2) z;
           let val = 0.5 * a + 0.5 * b;
           Vector3_set fine x (y + 1) z val
         })))
       fine0"

definition interpolate_z :: "Vector3 \<Rightarrow> Vector3 option" where
  "interpolate_z fine0 =
     for_loop 1 0 (int (dimX fine0)) (\<lambda>x.
       for_loop 1 0 (int (dimY fine0)) (\<lambda>y.
         for_loop 2 0 (int (dimZ fine0) - 2) (\<lambda>z fine. do {
           a \<leftarrow> Vector3_get fine x y z;
           b \<leftarrow> Vector3_get fine x y (z + 2);
           let val = 0.5 * a + 0.5 * b;
           Vector3_set fine x y (z + 1) val
         })))
       fine0"

definition interpolate_field :: "Vector3 \<Rightarrow> Vector3 \<Rightarrow> Vector3 option" where
  "interpolate_field coarse fine = do {
     fine \<leftarrow> interpolate_prepare coarse fine;
     fine \<leftarrow> interpolate_x fine;
     fine \<leftarrow> interpolate_y fine;
     interpolate_z fine
   }"

definition interpolate :: "CpuGridData \<Rightarrow> nat \<Rightarrow> CpuGridData option" where
  "interpolate grid level = do {
     coarseLevel \<leftarrow> getLevel grid (level + 1);
     fineLevel \<leftarrow> getLevel grid level;
     fine \<leftarrow> interpolate_field (level_v coarseLevel) (level_e fineLevel);
     Some (putLevel grid level (fineLevel\<lparr>level_e := fine\<rparr>))
   }"

section \<open>The V-cycle and the outer loop\<close>

text \<open>One pass of the downward loop of \<open>vcycle\<close>, for level \<open>i\<close>.\<close>

definition vcycle_down :: "(int \<Rightarrow> nat) \<Rightarrow> nat \<Rightarrow> CpuGridData \<Rightarrow> CpuGridData option" where
  "vcycle_down thr i grid = do {
     grid \<leftarrow> jacobi thr grid i (preSmoothing grid);
     _ \<leftarrow> getLevel grid (i + 1);
     (res, grid) \<leftarrow> compResidual thr grid i;
     level \<leftarrow> getLevel grid i;
     nextLevel \<leftarrow> getLevel grid (i + 1);
     f' \<leftarrow> restrict (level_r level) (level_f nextLevel);
     let nextLevel = nextLevel\<lparr>level_f := f'\<rparr>;
     if isLinear grid then
       Some (putLevel grid (i + 1) (nextLevel\<lparr>level_v := Vector3_fill (level_v nextLevel) 0.0\<rparr>))
     else do {
       restV' \<leftarrow> restrict (level_v level) (level_restV nextLevel);
       let nextLevel = nextLevel\<lparr>level_restV := restV'\<rparr>;
       v' \<leftarrow> restrict (level_v level) (level_v nextLevel);
       let nextLevel = nextLevel\<lparr>level_v := v'\<rparr>;
       grid \<leftarrow> applyStencil (putLevel grid (i + 1) nextLevel) (i + 1) (level_restV nextLevel);
       nextLevel \<leftarrow> getLevel grid (i + 1);
       f'' \<leftarrow> Vector3_add (level_f nextLevel) (level_r nextLevel);
       Some (putLevel grid (i + 1) (nextLevel\<lparr>level_f := f''\<rparr>))
     }
   }"

text \<open>One pass of the upward loop of \<open>vcycle\<close>, for level \<open>i > 0\<close>.\<close>

definition vcycle_up :: "(int \<Rightarrow> nat) \<Rightarrow> nat \<Rightarrow> CpuGridData \<Rightarrow> CpuGridData option" where
  "vcycle_up thr i grid = do {
     grid \<leftarrow>
       (if \<not> isLinear grid then do {
          level \<leftarrow> getLevel grid i;
          v' \<leftarrow> Vector3_sub (level_v level) (level_restV level);
          Some (putLevel grid i (level\<lparr>level_v := v'\<rparr>))
        } else Some grid);
     grid \<leftarrow> interpolate grid (i - 1);
     levelPrev \<leftarrow> getLevel grid (i - 1);
     v' \<leftarrow> Vector3_add (level_v levelPrev) (level_e levelPrev);
     let grid = putLevel grid (i - 1) (levelPrev\<lparr>level_v := v'\<rparr>);
     jacobi thr grid (i - 1) (postSmoothing grid)
   }"

text \<open>\<open>for (i = n; i > 0; i--) body\<close>\<close>

fun for_down :: "nat \<Rightarrow> (nat \<Rightarrow> 's \<Rightarrow> 's option) \<Rightarrow> 's \<Rightarrow> 's option" where
  "for_down 0 body s = Some s"
| "for_down (Suc n) body s =
     (case body (Suc n) s of None \<Rightarrow> None | Some s' \<Rightarrow> for_down n body s')"

text \<open>\<open>numLevels() - 1\<close> is unsigned: on an empty hierarchy it is \<open>2^64 - 1\<close>.\<close>

definition lastLevel :: "CpuGridData \<Rightarrow> nat" where
  "lastLevel grid = nat ((int (numLevels grid) - 1) mod 2 ^ 64)"

definition vcycle :: "(int \<Rightarrow> nat) \<Rightarrow> CpuGridData \<Rightarrow> (real \<times> CpuGridData) option" where
  "vcycle thr grid = do {
     grid \<leftarrow> for_loop 1 0 (int (lastLevel grid)) (\<lambda>i. vcycle_down thr (nat i)) grid;
     grid \<leftarrow> jacobi thr grid (lastLevel grid) (preSmoothing grid + postSmoothing grid);
     grid \<leftarrow> for_down (lastLevel grid) (vcycle_up thr) grid;
     compResidual thr grid 0
   }"

text \<open>
  \<open>solve\<close>. What is written to \<open>std::cout\<close> is kept as a list of lines; the timer is
  left out.
\<close>

datatype out_line = InitialResidual real | IterResidual nat real

definition solve :: "(int \<Rightarrow> nat) \<Rightarrow> CpuGridData \<Rightarrow> (CpuGridData \<times> out_line list) option" where
  "solve thr grid = do {
     (initialResidual, grid) \<leftarrow> compResidual thr grid 0;
     let out = [InitialResidual initialResidual];
     for_loop 1 0 (int (maxiter grid)) (\<lambda>i (grid, out). do {
       (res, grid) \<leftarrow> vcycle thr grid;
       Some (grid, out @ [IterResidual (nat i) res])
     }) (grid, out)
   }"

section \<open>Proof vocabulary\<close>

text \<open>
  Proof vocabulary, not program text: a field is well formed when its buffer has
  one slot per coordinate triple, is not empty and its size fits a \<open>std::size_t\<close>; a triple is in
  range when each coordinate is within its own axis; \<open>cell\<close> is the plain read
  \<open>values[idx]\<close>.
\<close>

definition wfv :: "Vector3 \<Rightarrow> bool" where
  "wfv v \<longleftrightarrow> length (vals v) = dimX v * dimY v * dimZ v \<and> 0 < length (vals v)
        \<and> int (length (vals v)) < 2 ^ 64"

definition inr :: "Vector3 \<Rightarrow> int \<Rightarrow> int \<Rightarrow> int \<Rightarrow> bool" where
  "inr v x y z \<longleftrightarrow> 0 \<le> x \<and> x < int (dimX v) \<and> 0 \<le> y \<and> y < int (dimY v) \<and> 0 \<le> z \<and> z < int (dimZ v)"

definition cell :: "Vector3 \<Rightarrow> int \<Rightarrow> int \<Rightarrow> int \<Rightarrow> real" where
  "cell v x y z = vals v ! nat (flat_index v x y z)"

text \<open>
  The values a loop variable takes in \<open>for (x = lo; x < hi; x += step)\<close>, and the
  index triples of a nest of three loops.
\<close>

definition rng :: "int \<Rightarrow> int \<Rightarrow> int \<Rightarrow> int set" where
  "rng step lo hi = {x. lo \<le> x \<and> x < hi \<and> step dvd (x - lo)}"

definition box3 :: "int set \<Rightarrow> int set \<Rightarrow> int set \<Rightarrow> (int \<times> int \<times> int) set" where
  "box3 A B C = {(x, y, z). x \<in> A \<and> y \<in> B \<and> z \<in> C}"

text \<open>
  \<open>written v0 D G v\<close>: the field \<open>v\<close> has the extents of \<open>v0\<close>, holds \<open>G x y z\<close> at
  the cells of \<open>D\<close> and the content of \<open>v0\<close> at every other cell. A cell is interior
  when no coordinate is on a face of the padded box.
\<close>

definition written :: "Vector3 \<Rightarrow> (int \<times> int \<times> int) set \<Rightarrow> (int \<Rightarrow> int \<Rightarrow> int \<Rightarrow> real) \<Rightarrow> Vector3 \<Rightarrow> bool" where
  "written v0 D G v \<longleftrightarrow>
     same_extent v v0
     \<and> (\<forall>x y z. inr v0 x y z \<longrightarrow> cell v x y z = (if (x, y, z) \<in> D then G x y z else cell v0 x y z))"

definition interior :: "Vector3 \<Rightarrow> int \<Rightarrow> int \<Rightarrow> int \<Rightarrow> bool" where
  "interior v x y z \<longleftrightarrow>
     1 \<le> x \<and> x < int (dimX v) - 1 \<and> 1 \<le> y \<and> y < int (dimY v) - 1 \<and> 1 \<le> z \<and> z < int (dimZ v) - 1"

text \<open>The full-weighting sum around the fine point \<open>(2X, 2Y, 2Z)\<close>, with the weights of the source.\<close>

definition restrict_sum :: "Vector3 \<Rightarrow> int \<Rightarrow> int \<Rightarrow> int \<Rightarrow> real" where
  "restrict_sum fine X Y Z =
     (\<Sum>ii\<in>{-1..1}. \<Sum>jj\<in>{-1..1}. \<Sum>kk\<in>{-1..1}.
        restrict_fac ii jj kk * cell fine (2 * X + ii) (2 * Y + jj) (2 * Z + kk))"

text \<open>Test data: a field filled with one value.\<close>

definition const_field :: "nat \<Rightarrow> nat \<Rightarrow> nat \<Rightarrow> real \<Rightarrow> Vector3" where
  "const_field x y z c = \<lparr>dimX = x, dimY = y, dimZ = z, vals = replicate (x * y * z) c\<rparr>"

text \<open>
  A field of a level is padded when it is well formed and has one halo cell on each
  side of the interior extent \<open>levelDim\<close>. A stencil is usable when every weight has
  its offset triple and no offset reaches beyond the halo.
\<close>

definition padded :: "LevelData \<Rightarrow> Vector3 \<Rightarrow> bool" where
  "padded L u \<longleftrightarrow>
     wfv u \<and> dimX u = levelDimX L + 2 \<and> dimY u = levelDimY L + 2 \<and> dimZ u = levelDimZ L + 2"

definition stencil_ok :: "Stencil \<Rightarrow> bool" where
  "stencil_ok st \<longleftrightarrow>
     length (stencil_offsets st) = length (stencil_values st)
     \<and> (\<forall>(dx, dy, dz) \<in> set (stencil_offsets st). \<bar>dx\<bar> \<le> 1 \<and> \<bar>dy\<bar> \<le> 1 \<and> \<bar>dz\<bar> \<le> 1)"

text \<open>The stencil applied to \<open>vin\<close> at one point, before the division by \<open>h * h\<close>.\<close>

definition stencil_apply :: "Stencil \<Rightarrow> Vector3 \<Rightarrow> int \<Rightarrow> int \<Rightarrow> int \<Rightarrow> real" where
  "stencil_apply st vin x y z =
     (\<Sum>i<length (stencil_values st).
        stencil_values st ! i
          * cell vin (x + fst (stencil_offsets st ! i)) (y + fst (snd (stencil_offsets st ! i)))
                     (z + snd (snd (stencil_offsets st ! i))))"

text \<open>
  The interior points of a level, and the residual \<open>f - A v\<close> at one of them as
  \<open>compResidual\<close> forms it.
\<close>

definition level_pts :: "LevelData \<Rightarrow> (int \<times> int \<times> int) set" where
  "level_pts L = {(x, y, z). 1 \<le> x \<and> x \<le> int (levelDimX L) \<and> 1 \<le> y \<and> y \<le> int (levelDimY L)
                            \<and> 1 \<le> z \<and> z \<le> int (levelDimZ L)}"

definition resid_val :: "CpuGridData \<Rightarrow> LevelData \<Rightarrow> int \<Rightarrow> int \<Rightarrow> int \<Rightarrow> real" where
  "resid_val grid L x y z =
     cell (level_f L) x y z
       - (stencil_apply (stencil grid) (level_v L) x y z / (level_h L * level_h L)
          + (if \<not> isLinear grid
             then gamma grid * cell (level_v L) x y z * exp (cell (level_v L) x y z) else 0))"

text \<open>The sum the last loop of \<open>compResidual\<close> forms over the reduction buffer.\<close>

definition shard_total :: "real list \<Rightarrow> real" where
  "shard_total sh = (\<Sum>i\<in>rng (int THREAD_OFFSET) 0 (int (length sh)). sh ! nat i)"

text \<open>
  Test data: the 7-point Laplacian of the spec, and a hierarchy of one level with a
  single interior point, \<open>v = 1\<close> and \<open>f = 2\<close> everywhere, \<open>h = 1/2\<close>.
\<close>

definition laplace7 :: Stencil where
  "laplace7 = \<lparr>stencil_values = [6, -1, -1, -1, -1, -1, -1],
     stencil_offsets = [(0,0,0), (1,0,0), (-1,0,0), (0,1,0), (0,-1,0), (0,0,1), (0,0,-1)]\<rparr>"

definition level1 :: LevelData where
  "level1 = \<lparr>levelDimX = 1, levelDimY = 1, levelDimZ = 1,
     level_v = const_field 3 3 3 1, level_f = const_field 3 3 3 2, level_r = Vector3_new 3 3 3,
     level_e = Vector3_new 3 3 3, level_restV = Vector3_new 3 3 3, level_h = 1 / 2\<rparr>"

definition grid1 :: CpuGridData where
  "grid1 = \<lparr>levels = [level1], stencil = laplace7, isLinear = True, gamma = 1, omega = 1,
     preSmoothing = 2, postSmoothing = 2, maxiter = 3\<rparr>"

text \<open>The value the sweep of \<open>jacobi\<close> stores at one point, from the iterate \<open>v0\<close> and the residual \<open>r\<close>.\<close>

definition jacobi_val :: "CpuGridData \<Rightarrow> real \<Rightarrow> real \<Rightarrow> Vector3 \<Rightarrow> Vector3 \<Rightarrow> int \<Rightarrow> int \<Rightarrow> int \<Rightarrow> real" where
  "jacobi_val grid preFac alpha v0 r x y z =
     (if isLinear grid
      then cell v0 x y z + omega grid * (alpha * cell r x y z)
      else cell v0 x y z
           + omega grid * (cell r x y z / (preFac + gamma grid * (1 + cell v0 x y z) * exp (cell v0 x y z))))"

text \<open>\<open>frame_eq D v0 v\<close>: the field \<open>v\<close> has the extents of \<open>v0\<close> and differs from it at most on \<open>D\<close>.\<close>

definition frame_eq :: "(int \<times> int \<times> int) set \<Rightarrow> Vector3 \<Rightarrow> Vector3 \<Rightarrow> bool" where
  "frame_eq D v0 v \<longleftrightarrow>
     same_extent v v0 \<and> (\<forall>x y z. inr v0 x y z \<and> (x, y, z) \<notin> D \<longrightarrow> cell v x y z = cell v0 x y z)"

text \<open>
  The cells the four passes of \<open>interpolate\<close> write on a field with the extents of
  \<open>u\<close>: the injected cells (all coordinates even and below the last index), then the
  cells with odd \<open>x\<close>, odd \<open>y\<close>, odd \<open>z\<close> between two cells two apart.
\<close>

definition inj_pts :: "Vector3 \<Rightarrow> (int \<times> int \<times> int) set" where
  "inj_pts u = {(x, y, z). even x \<and> 0 \<le> x \<and> x < int (dimX u) - 1 \<and> even y \<and> 0 \<le> y \<and> y < int (dimY u) - 1
                          \<and> even z \<and> 0 \<le> z \<and> z < int (dimZ u) - 1}"

definition xpass_pts :: "Vector3 \<Rightarrow> (int \<times> int \<times> int) set" where
  "xpass_pts u = {(x, y, z). odd x \<and> 1 \<le> x \<and> x < int (dimX u) - 1 \<and> even y \<and> 0 \<le> y \<and> y < int (dimY u)
                          \<and> even z \<and> 0 \<le> z \<and> z < int (dimZ u)}"

definition ypass_pts :: "Vector3 \<Rightarrow> (int \<times> int \<times> int) set" where
  "ypass_pts u = {(x, y, z). 0 \<le> x \<and> x < int (dimX u) \<and> odd y \<and> 1 \<le> y \<and> y < int (dimY u) - 1
                          \<and> even z \<and> 0 \<le> z \<and> z < int (dimZ u)}"

definition zpass_pts :: "Vector3 \<Rightarrow> (int \<times> int \<times> int) set" where
  "zpass_pts u = {(x, y, z). 0 \<le> x \<and> x < int (dimX u) \<and> 0 \<le> y \<and> y < int (dimY u)
                          \<and> odd z \<and> 1 \<le> z \<and> z < int (dimZ u) - 1}"

definition avg_x :: "Vector3 \<Rightarrow> int \<Rightarrow> int \<Rightarrow> int \<Rightarrow> real" where
  "avg_x u x y z = 0.5 * cell u (x - 1) y z + 0.5 * cell u (x + 1) y z"

definition avg_y :: "Vector3 \<Rightarrow> int \<Rightarrow> int \<Rightarrow> int \<Rightarrow> real" where
  "avg_y u x y z = 0.5 * cell u x (y - 1) z + 0.5 * cell u x (y + 1) z"

definition avg_z :: "Vector3 \<Rightarrow> int \<Rightarrow> int \<Rightarrow> int \<Rightarrow> real" where
  "avg_z u x y z = 0.5 * cell u x y (z - 1) + 0.5 * cell u x y (z + 1)"

text \<open>The fields after each of the four passes, from \<open>f0\<close> to \<open>f4\<close>.\<close>

definition interp_chain :: "Vector3 \<Rightarrow> Vector3 \<Rightarrow> Vector3 \<Rightarrow> Vector3 \<Rightarrow> Vector3 \<Rightarrow> Vector3 \<Rightarrow> bool" where
  "interp_chain coarse f0 f1 f2 f3 f4 \<longleftrightarrow>
     written f0 (inj_pts f0) (\<lambda>x y z. cell coarse (x div 2) (y div 2) (z div 2)) f1
     \<and> written f1 (xpass_pts f0) (avg_x f1) f2
     \<and> written f2 (ypass_pts f0) (avg_y f2) f3
     \<and> written f3 (zpass_pts f0) (avg_z f3) f4"


definition zero_level :: "nat \<Rightarrow> real \<Rightarrow> LevelData" where
  "zero_level n hh = \<lparr>levelDimX = n, levelDimY = n, levelDimZ = n,
     level_v = Vector3_new (n + 2) (n + 2) (n + 2), level_f = Vector3_new (n + 2) (n + 2) (n + 2),
     level_r = Vector3_new (n + 2) (n + 2) (n + 2), level_e = Vector3_new (n + 2) (n + 2) (n + 2),
     level_restV = Vector3_new (n + 2) (n + 2) (n + 2), level_h = hh\<rparr>"


text \<open>
  The value \<open>applyStencil\<close> stores at one point, and the zero-halo property of a field:
  every cell with a coordinate on a face of the padded box holds 0.
\<close>

definition apply_val :: "CpuGridData \<Rightarrow> LevelData \<Rightarrow> Vector3 \<Rightarrow> int \<Rightarrow> int \<Rightarrow> int \<Rightarrow> real" where
  "apply_val grid L vin x y z =
     stencil_apply (stencil grid) vin x y z / (level_h L * level_h L)
       + gamma grid * cell vin x y z * exp (cell vin x y z)"

definition halo0 :: "Vector3 \<Rightarrow> bool" where
  "halo0 u \<longleftrightarrow> (\<forall>x y z. inr u x y z \<and> \<not> interior u x y z \<longrightarrow> cell u x y z = 0)"

text \<open>
  Test data: a two-level hierarchy (3 and 1 interior points per axis) whose finer
  correction field \<open>e\<close> holds 1 in every cell, halo included.
\<close>

definition gridH :: CpuGridData where
  "gridH = \<lparr>levels = [(zero_level 3 (1 / 4))\<lparr>level_e := const_field 5 5 5 1\<rparr>, zero_level 1 (1 / 2)],
     stencil = laplace7, isLinear = True, gamma = 1, omega = 1,
     preSmoothing = 1, postSmoothing = 1, maxiter = 1\<rparr>"

text \<open>
  Well-formed hierarchies. Every field of a level is padded (\<open>restV\<close> only in nonlinear
  mode, where it is used). Modelled from the spec: the constructor of \<open>CpuGridData\<close>
  makes "each successive level's extent \<open>((Nx-1)/2, (Ny-1)/2, (Nz-1)/2)\<close> interior
  cells". The hierarchy has a level, a usable stencil with an entry 0, and every
  OpenMP thread number is below 16.
\<close>

definition wf_level :: "bool \<Rightarrow> LevelData \<Rightarrow> bool" where
  "wf_level lin L \<longleftrightarrow>
     padded L (level_v L) \<and> padded L (level_f L) \<and> padded L (level_r L) \<and> padded L (level_e L)
     \<and> (\<not> lin \<longrightarrow> padded L (level_restV L))"

definition coarsens :: "LevelData \<Rightarrow> LevelData \<Rightarrow> bool" where
  "coarsens Lf Lc \<longleftrightarrow>
     levelDimX Lc = (levelDimX Lf - 1) div 2 \<and> levelDimY Lc = (levelDimY Lf - 1) div 2
     \<and> levelDimZ Lc = (levelDimZ Lf - 1) div 2"

definition wf_grid :: "(int \<Rightarrow> nat) \<Rightarrow> CpuGridData \<Rightarrow> bool" where
  "wf_grid thr g \<longleftrightarrow>
     levels g \<noteq> [] \<and> int (length (levels g)) < 2 ^ 64
     \<and> (\<forall>L \<in> set (levels g). wf_level (isLinear g) L)
     \<and> (\<forall>i. Suc i < length (levels g) \<longrightarrow> coarsens (levels g ! i) (levels g ! Suc i))
     \<and> stencil_ok (stencil g) \<and> stencil_values (stencil g) \<noteq> []
     \<and> (\<forall>x. thr x < 16)"

text \<open>All halo cells of every field on every level are zero.\<close>

definition halo_level :: "LevelData \<Rightarrow> bool" where
  "halo_level L \<longleftrightarrow>
     halo0 (level_v L) \<and> halo0 (level_f L) \<and> halo0 (level_r L) \<and> halo0 (level_e L)
     \<and> halo0 (level_restV L)"

definition halo_grid :: "CpuGridData \<Rightarrow> bool" where
  "halo_grid g \<longleftrightarrow> (\<forall>L \<in> set (levels g). halo_level L)"

text \<open>
  \<open>grid_ok thr hal g\<close>: the hierarchy is well formed and, when \<open>hal\<close> is set, has zero
  halos. \<open>same_params\<close>: two hierarchies have the same parameters and number of
  levels; \<open>same_dims\<close>: two levels have the same interior extent.
\<close>

definition grid_ok :: "(int \<Rightarrow> nat) \<Rightarrow> bool \<Rightarrow> CpuGridData \<Rightarrow> bool" where
  "grid_ok thr hal g \<longleftrightarrow> wf_grid thr g \<and> (hal \<longrightarrow> halo_grid g)"

definition same_params :: "CpuGridData \<Rightarrow> CpuGridData \<Rightarrow> bool" where
  "same_params g g' \<longleftrightarrow>
     stencil g' = stencil g \<and> isLinear g' = isLinear g \<and> gamma g' = gamma g \<and> omega g' = omega g
     \<and> preSmoothing g' = preSmoothing g \<and> postSmoothing g' = postSmoothing g \<and> maxiter g' = maxiter g
     \<and> length (levels g') = length (levels g)"

definition same_dims :: "LevelData \<Rightarrow> LevelData \<Rightarrow> bool" where
  "same_dims L L' \<longleftrightarrow>
     levelDimX L' = levelDimX L \<and> levelDimY L' = levelDimY L \<and> levelDimZ L' = levelDimZ L"

text \<open>
  \<open>n\<close> V-cycles one after the other, with the residual norm each of them returns.
\<close>

fun vcycles :: "(int \<Rightarrow> nat) \<Rightarrow> nat \<Rightarrow> CpuGridData \<Rightarrow> (CpuGridData \<times> real list) option" where
  "vcycles thr 0 g = Some (g, [])"
| "vcycles thr (Suc n) g =
     (case vcycles thr n g of
        None \<Rightarrow> None
      | Some (g1, rs) \<Rightarrow>
          (case vcycle thr g1 of None \<Rightarrow> None | Some (res, g2) \<Rightarrow> Some (g2, rs @ [res])))"

text \<open>
  Test data: a linear two-level hierarchy (3 and 1 interior points per axis) with zero
  fields, but for the right-hand side of the finer level, which holds 1 at the centre
  cell \<open>(2, 2, 2)\<close>.
\<close>

definition bump_field :: Vector3 where
  "bump_field = \<lparr>dimX = 5, dimY = 5, dimZ = 5, vals = (replicate 125 0)[62 := 1]\<rparr>"

definition gridZ :: CpuGridData where
  "gridZ = \<lparr>levels = [(zero_level 3 (1 / 4))\<lparr>level_f := bump_field\<rparr>, zero_level 1 (1 / 2)],
     stencil = laplace7, isLinear = True, gamma = 1, omega = 1,
     preSmoothing = 1, postSmoothing = 1, maxiter = 2\<rparr>"


section \<open>Facts about \<open>Vector3\<close>\<close>

lemma flat_bound:
  assumes "wfv v" "inr v x y z"
  shows "0 \<le> z * int (dimX v) * int (dimY v) + y * int (dimX v) + x"
    and "z * int (dimX v) * int (dimY v) + y * int (dimX v) + x < int (length (vals v))"
proof -
  let ?X = "int (dimX v)" and ?Y = "int (dimY v)" and ?Z = "int (dimZ v)"
  from assms have r: "0 \<le> x" "x < ?X" "0 \<le> y" "y < ?Y" "0 \<le> z" "z < ?Z"
    by (auto simp: inr_def)
  have len: "int (length (vals v)) = ?X * ?Y * ?Z"
    using assms(1) by (simp add: wfv_def)
  show "0 \<le> z * ?X * ?Y + y * ?X + x"
    using r by simp
  have a1: "y * ?X \<le> (?Y - 1) * ?X"
    using r by (intro mult_right_mono) auto
  have a2: "z * ?X * ?Y \<le> (?Z - 1) * ?X * ?Y"
    using r by (intro mult_right_mono) auto
  have "z * ?X * ?Y + y * ?X + x < (?Z - 1) * ?X * ?Y + (?Y - 1) * ?X + ?X"
    using a1 a2 r(2) by linarith
  also have "\<dots> = ?X * ?Y * ?Z"
    by (simp add: algebra_simps)
  finally show "z * ?X * ?Y + y * ?X + x < int (length (vals v))"
    using len by simp
qed

lemma flat_index_inr:
  assumes "wfv v" "inr v x y z"
  shows "flat_index v x y z = z * int (dimX v) * int (dimY v) + y * int (dimX v) + x"
proof -
  have "int (length (vals v)) < 2 ^ 64"
    using assms(1) unfolding wfv_def by blast
  with flat_bound[OF assms] show ?thesis
    by (simp add: flat_index_def)
qed

lemma flat_index_lt:
  assumes "wfv v" "inr v x y z"
  shows "0 \<le> flat_index v x y z" "flat_index v x y z < int (length (vals v))"
  using flat_bound[OF assms] flat_index_inr[OF assms] by simp_all

lemma flat_index_inj:
  assumes "wfv v" "inr v x y z" "inr v x' y' z'"
    and "flat_index v x y z = flat_index v x' y' z'"
  shows "x = x' \<and> y = y' \<and> z = z'"
proof -
  let ?X = "int (dimX v)" and ?Y = "int (dimY v)"
  from assms(2,3) have r: "0 \<le> x" "x < ?X" "0 \<le> y" "y < ?Y" "0 \<le> x'" "x' < ?X" "0 \<le> y'" "y' < ?Y"
    by (auto simp: inr_def)
  have eq: "(z * ?Y + y) * ?X + x = (z' * ?Y + y') * ?X + x'"
    using assms(4) flat_index_inr[OF assms(1,2)] flat_index_inr[OF assms(1,3)]
    by (simp add: algebra_simps)
  have "((z * ?Y + y) * ?X + x) mod ?X = x" "((z' * ?Y + y') * ?X + x') mod ?X = x'"
    using r by simp_all
  with eq have x: "x = x'" by metis
  have "((z * ?Y + y) * ?X + x) div ?X = z * ?Y + y" "((z' * ?Y + y') * ?X + x') div ?X = z' * ?Y + y'"
    using r by simp_all
  with eq have eq2: "z * ?Y + y = z' * ?Y + y'" by metis
  have "(z * ?Y + y) mod ?Y = y" "(z' * ?Y + y') mod ?Y = y'"
    using r by simp_all
  with eq2 have y: "y = y'" by metis
  have "(z * ?Y + y) div ?Y = z" "(z' * ?Y + y') div ?Y = z'"
    using r by simp_all
  with eq2 have "z = z'" by metis
  with x y show ?thesis by simp
qed

lemma get_inr: "wfv v \<Longrightarrow> inr v x y z \<Longrightarrow> Vector3_get v x y z = Some (cell v x y z)"
  using flat_index_lt[of v x y z] by (simp add: Vector3_get_def cell_def Let_def)

lemma set_inr:
  assumes "wfv v" "inr v x y z"
  shows "Vector3_set v x y z a = Some (v\<lparr>vals := (vals v)[nat (flat_index v x y z) := a]\<rparr>)"
  using flat_index_lt[OF assms] by (simp add: Vector3_set_def Let_def)

lemma set_shape:
  assumes "Vector3_set v x y z a = Some v'"
  shows "dimX v' = dimX v" "dimY v' = dimY v" "dimZ v' = dimZ v"
    "length (vals v') = length (vals v)" "wfv v' = wfv v" "inr v' = inr v"
  using assms by (auto simp: Vector3_set_def Let_def wfv_def inr_def fun_eq_iff split: if_splits)

lemma set_cell:
  assumes "wfv v" "inr v x y z" "Vector3_set v x y z a = Some v'" "inr v x' y' z'"
  shows "cell v' x' y' z' = (if x' = x \<and> y' = y \<and> z' = z then a else cell v x' y' z')"
proof -
  have v': "v' = v\<lparr>vals := (vals v)[nat (flat_index v x y z) := a]\<rparr>"
    using set_inr[OF assms(1,2)] assms(3) by simp
  have fl: "flat_index v' = flat_index v"
    by (simp add: v' flat_index_def fun_eq_iff)
  note b = flat_index_lt[OF assms(1,2)] flat_index_lt[OF assms(1,4)]
  have c: "cell v' x' y' z' = (vals v)[nat (flat_index v x y z) := a] ! nat (flat_index v x' y' z')"
    unfolding cell_def fl by (simp add: v')
  show ?thesis
  proof (cases "x' = x \<and> y' = y \<and> z' = z")
    case True
    have "nat (flat_index v x y z) < length (vals v)"
      using b by linarith
    then show ?thesis using True c by simp
  next
    case False
    then have "flat_index v x y z \<noteq> flat_index v x' y' z'"
      using flat_index_inj[OF assms(1,2,4)] by auto
    then have "nat (flat_index v x y z) \<noteq> nat (flat_index v x' y' z')"
      using b by auto
    then have "cell v' x' y' z' = cell v x' y' z'"
      using c by (simp add: cell_def)
    with False show ?thesis by auto
  qed
qed

section \<open>Loop rules\<close>

lemma finite_rng: "finite (rng step lo hi)"
proof -
  have "rng step lo hi \<subseteq> {lo..<hi}" by (auto simp: rng_def)
  then show ?thesis by (rule finite_subset) simp
qed

lemma rng_next:
  assumes "0 < step" "x \<in> rng step lo hi"
  shows "{x' \<in> rng step lo hi. x' < x + step} = insert x {x' \<in> rng step lo hi. x' < x}"
proof -
  have le: "x' \<le> x" if "step dvd (x' - lo)" "x' < x + step" for x'
  proof -
    have "step dvd (x - lo)" using assms(2) by (simp add: rng_def)
    then have "step dvd ((x' - lo) - (x - lo))"
      using that(1) by (rule dvd_diff[rotated])
    then have "step dvd (x' - x)" by simp
    then obtain k where k: "x' - x = step * k" by (auto simp: dvd_def)
    have "step * k < step * 1" using that(2) k by simp
    then have "k < 1" using assms(1) by (simp only: mult_less_cancel_left_pos)
    then have "step * k \<le> 0" using assms(1) by (simp add: mult_le_0_iff)
    with k show ?thesis by simp
  qed
  show ?thesis
  proof (rule set_eqI)
    fix x'
    show "x' \<in> {x' \<in> rng step lo hi. x' < x + step} \<longleftrightarrow> x' \<in> insert x {x' \<in> rng step lo hi. x' < x}"
      using le[of x'] assms by (cases "x' = x") (auto simp: rng_def)
  qed
qed

lemma for_loop_rule_aux:
  assumes step: "0 < step"
    and body: "\<And>X x s. P X s \<Longrightarrow> finite X \<Longrightarrow> X \<subseteq> rng step lo hi \<Longrightarrow> x \<in> rng step lo hi \<Longrightarrow> x \<notin> X
                 \<Longrightarrow> \<exists>s'. body x s = Some s' \<and> P (insert x X) s'"
  shows "lo \<le> x \<Longrightarrow> step dvd (x - lo) \<Longrightarrow> P {x' \<in> rng step lo hi. x' < x} s
         \<Longrightarrow> \<exists>s'. for_loop step x hi body s = Some s' \<and> P (rng step lo hi) s'"
proof (induction "nat (hi - x)" arbitrary: x s rule: less_induct)
  case less
  let ?R = "rng step lo hi"
  show ?case
  proof (cases "x < hi")
    case True
    have xin: "x \<in> ?R" using True less.prems by (simp add: rng_def)
    have fin: "finite {x' \<in> ?R. x' < x}" using finite_rng[of step lo hi] by simp
    have "\<exists>s'. body x s = Some s' \<and> P (insert x {x' \<in> ?R. x' < x}) s'"
      using xin less.prems(3) fin by (intro body) auto
    then obtain s1 where s1: "body x s = Some s1" "P {x' \<in> ?R. x' < x + step} s1"
      using rng_next[OF step xin] by auto
    have "step dvd ((x - lo) + step)"
      using less.prems(2) by simp
    then have dv: "step dvd (x + step - lo)"
      by (simp add: algebra_simps)
    have "\<exists>s'. for_loop step (x + step) hi body s1 = Some s' \<and> P ?R s'"
      using True step less.prems(1) s1(2) dv by (intro less.hyps) auto
    then show ?thesis
      using True step s1(1) by (subst for_loop.simps) simp
  next
    case False
    then have "{x' \<in> rng step lo hi. x' < x} = rng step lo hi"
      by (auto simp: rng_def)
    with less.prems False show ?thesis
      by (simp add: for_loop.simps)
  qed
qed

lemma for_loop_rule:
  assumes "0 < step" "P {} s0"
    and "\<And>X x s. P X s \<Longrightarrow> finite X \<Longrightarrow> X \<subseteq> rng step lo hi \<Longrightarrow> x \<in> rng step lo hi \<Longrightarrow> x \<notin> X
                 \<Longrightarrow> \<exists>s'. body x s = Some s' \<and> P (insert x X) s'"
  shows "\<exists>s'. for_loop step lo hi body s0 = Some s' \<and> P (rng step lo hi) s'"
proof -
  have eq: "{x' \<in> rng step lo hi. x' < lo} = {}" by (auto simp: rng_def)
  have "P {x' \<in> rng step lo hi. x' < lo} s0" unfolding eq by (rule assms(2))
  then show ?thesis
    using for_loop_rule_aux[where P = P and x = lo, OF assms(1) assms(3)] by simp
qed

lemma for_loop_inv:
  assumes "0 < step" "I s0"
    and "\<And>x s. I s \<Longrightarrow> x \<in> rng step lo hi \<Longrightarrow> \<exists>s'. body x s = Some s' \<and> I s'"
  shows "\<exists>s'. for_loop step lo hi body s0 = Some s' \<and> I s'"
  using for_loop_rule[where P = "\<lambda>_. I", OF assms(1,2)] assms(3) by blast

lemma nest3_rule:
  assumes st: "0 < sx" "0 < sy" "0 < sz"
    and init: "R {} s0"
    and body: "\<And>D x y z s. R D s \<Longrightarrow> finite D \<Longrightarrow> D \<subseteq> box3 (rng sx lx hx) (rng sy ly hy) (rng sz lz hz)
                 \<Longrightarrow> (x, y, z) \<in> box3 (rng sx lx hx) (rng sy ly hy) (rng sz lz hz) \<Longrightarrow> (x, y, z) \<notin> D
                 \<Longrightarrow> \<exists>s'. body x y z s = Some s' \<and> R (insert (x, y, z) D) s'"
  shows "\<exists>s'. for_loop sx lx hx (\<lambda>x. for_loop sy ly hy (\<lambda>y. for_loop sz lz hz (body x y))) s0 = Some s'
              \<and> R (box3 (rng sx lx hx) (rng sy ly hy) (rng sz lz hz)) s'"
proof -
  let ?A = "rng sx lx hx" and ?B = "rng sy ly hy" and ?C = "rng sz lz hz"
  note fin = finite_rng[of sx lx hx] finite_rng[of sy ly hy] finite_rng[of sz lz hz]
  have finbox: "finite (box3 X Y Z)" if "finite X" "finite Y" "finite Z" for X Y Z
  proof -
    have "box3 X Y Z = X \<times> Y \<times> Z" by (auto simp: box3_def)
    with that show ?thesis by simp
  qed
  have inner: "\<exists>s'. for_loop sz lz hz (body x y) s = Some s'
                 \<and> R (box3 X ?B ?C \<union> box3 {x} (insert y Y) ?C) s'"
    if "R (box3 X ?B ?C \<union> box3 {x} Y ?C) s" "finite X" "X \<subseteq> ?A" "x \<in> ?A" "x \<notin> X"
       "finite Y" "Y \<subseteq> ?B" "y \<in> ?B" "y \<notin> Y" for X Y x y s
  proof -
    let ?P = "\<lambda>Z s. R (box3 X ?B ?C \<union> box3 {x} Y ?C \<union> box3 {x} {y} Z) s"
    have e0: "box3 {x} {y} {} = {}" by (auto simp: box3_def)
    have "\<exists>s'. for_loop sz lz hz (body x y) s = Some s' \<and> ?P ?C s'"
    proof (rule for_loop_rule[where P = ?P, OF st(3)])
      show "?P {} s" using that(1) by (simp add: e0)
    next
      fix Z z s1
      assume a: "?P Z s1" "finite Z" "Z \<subseteq> ?C" "z \<in> ?C" "z \<notin> Z"
      let ?D = "box3 X ?B ?C \<union> box3 {x} Y ?C \<union> box3 {x} {y} Z"
      have "finite ?D" using that(2,6) a(2) fin by (intro finite_UnI finbox) auto
      moreover have "?D \<subseteq> box3 ?A ?B ?C" using that(3,4,7,8) a(3) by (auto simp: box3_def)
      moreover have "(x, y, z) \<in> box3 ?A ?B ?C" using that(4,8) a(4) by (simp add: box3_def)
      moreover have "(x, y, z) \<notin> ?D" using that(5,9) a(5) by (auto simp: box3_def)
      ultimately have "\<exists>s'. body x y z s1 = Some s' \<and> R (insert (x, y, z) ?D) s'"
        using a(1) by (intro body)
      moreover have "insert (x, y, z) ?D = box3 X ?B ?C \<union> box3 {x} Y ?C \<union> box3 {x} {y} (insert z Z)"
        by (auto simp: box3_def)
      ultimately show "\<exists>s'. body x y z s1 = Some s' \<and> ?P (insert z Z) s'" by simp
    qed
    moreover have "box3 X ?B ?C \<union> box3 {x} Y ?C \<union> box3 {x} {y} ?C = box3 X ?B ?C \<union> box3 {x} (insert y Y) ?C"
      by (auto simp: box3_def)
    ultimately show ?thesis by simp
  qed
  have middle: "\<exists>s'. for_loop sy ly hy (\<lambda>y. for_loop sz lz hz (body x y)) s = Some s'
                 \<and> R (box3 (insert x X) ?B ?C) s'"
    if "R (box3 X ?B ?C) s" "finite X" "X \<subseteq> ?A" "x \<in> ?A" "x \<notin> X" for X x s
  proof -
    let ?P = "\<lambda>Y s. R (box3 X ?B ?C \<union> box3 {x} Y ?C) s"
    have e0: "box3 {x} {} ?C = {}" by (auto simp: box3_def)
    have "\<exists>s'. for_loop sy ly hy (\<lambda>y. for_loop sz lz hz (body x y)) s = Some s' \<and> ?P ?B s'"
    proof (rule for_loop_rule[where P = ?P, OF st(2)])
      show "?P {} s" using that(1) by (simp add: e0)
    next
      fix Y y s1
      assume "?P Y s1" "finite Y" "Y \<subseteq> ?B" "y \<in> ?B" "y \<notin> Y"
      then show "\<exists>s'. for_loop sz lz hz (body x y) s1 = Some s' \<and> ?P (insert y Y) s'"
        using that(2-5) by (intro inner)
    qed
    moreover have "box3 X ?B ?C \<union> box3 {x} ?B ?C = box3 (insert x X) ?B ?C"
      by (auto simp: box3_def)
    ultimately show ?thesis by simp
  qed
  have e0: "box3 {} ?B ?C = {}" by (auto simp: box3_def)
  show ?thesis
  proof (rule for_loop_rule[where P = "\<lambda>X s. R (box3 X ?B ?C) s", OF st(1)])
    show "R (box3 {} ?B ?C) s0" using init by (simp add: e0)
  next
    fix X x s
    assume "R (box3 X ?B ?C) s" "finite X" "X \<subseteq> ?A" "x \<in> ?A" "x \<notin> X"
    then show "\<exists>s'. for_loop sy ly hy (\<lambda>y. for_loop sz lz hz (body x y)) s = Some s' \<and> R (box3 (insert x X) ?B ?C) s'"
      by (intro middle)
  qed
qed

section \<open>Claims about \<open>Vector3\<close> and the reduction buffer\<close>

text \<open>
  C9. The assertion of \<open>Vector3::get\<close> and \<open>Vector3::set\<close> compares only the flattened
  index with the buffer size. On a field with \<open>nx * ny * nz > nx\<close> the triple
  \<open>(nx, 0, 0)\<close>, whose x coordinate is outside its axis, passes the assertion: the read
  returns slot \<open>nx\<close> of the buffer and the write overwrites that slot, which is the slot
  of the in-range triple \<open>(0, 1, 0)\<close> (of \<open>(0, 0, 1)\<close> when \<open>ny = 1\<close>).
\<close>

theorem Vector3_flat_bounds_check_only:
  assumes "wfv v" "dimX v * dimY v * dimZ v > dimX v"
  shows "\<not> inr v (int (dimX v)) 0 0
       \<and> Vector3_get v (int (dimX v)) 0 0 = Some (vals v ! dimX v)
       \<and> Vector3_set v (int (dimX v)) 0 0 a = Some (v\<lparr>vals := (vals v)[dimX v := a]\<rparr>)
       \<and> Vector3_get v (int (dimX v)) 0 0
           = (if 2 \<le> dimY v then Vector3_get v 0 1 0 else Vector3_get v 0 0 1)
       \<and> Vector3_set v (int (dimX v)) 0 0 a
           = (if 2 \<le> dimY v then Vector3_set v 0 1 0 a else Vector3_set v 0 0 1 a)
       \<and> (if 2 \<le> dimY v then inr v 0 1 0 else inr v 0 0 1)"
proof -
  have len: "length (vals v) = dimX v * dimY v * dimZ v" "int (length (vals v)) < 2 ^ 64"
    using assms(1) unfolding wfv_def by blast+
  have lt: "dimX v < length (vals v)"
    using assms(2) len by simp
  then have "int (dimX v) < 2 ^ 64"
    using len(2) by linarith
  then have f0: "flat_index v (int (dimX v)) 0 0 = int (dimX v)"
    by (simp add: flat_index_def)
  have pos: "0 < dimX v" "0 < dimY v" "0 < dimZ v"
    using assms(2) by (auto intro: Nat.gr0I)
  have yz: "2 \<le> dimY v \<or> (dimY v = 1 \<and> 2 \<le> dimZ v)"
  proof (rule ccontr)
    assume "\<not> ?thesis"
    with pos have "dimY v = 1 \<and> dimZ v = 1" by auto
    with assms(2) show False by simp
  qed
  have f1: "flat_index v 0 1 0 = int (dimX v)"
    using \<open>int (dimX v) < 2 ^ 64\<close> by (simp add: flat_index_def)
  have f2: "dimY v = 1 \<Longrightarrow> flat_index v 0 0 1 = int (dimX v)"
    using \<open>int (dimX v) < 2 ^ 64\<close> by (simp add: flat_index_def)
  show ?thesis
    using lt f0 f1 f2 yz pos
    by (auto simp: Vector3_get_def Vector3_set_def Let_def inr_def)
qed

theorem Vector3_flat_bounds_check_only_witness:
  "Vector3_get (Vector3_new 2 2 1) 2 0 0 = Vector3_get (Vector3_new 2 2 1) 0 1 0
   \<and> Vector3_set (Vector3_new 2 2 1) 2 0 0 5 = Some \<lparr>dimX = 2, dimY = 2, dimZ = 1, vals = [0, 0, 5, 0]\<rparr>
   \<and> \<not> inr (Vector3_new 2 2 1) 2 0 0"
proof -
  have w: "wfv (Vector3_new 2 2 1)"
    by (simp add: wfv_def Vector3_new_def)
  have r: "replicate 4 (0::real) = [0, 0, 0, 0]"
    by code_simp
  show ?thesis
    using Vector3_flat_bounds_check_only [OF w, of 5]
    by (simp add: Vector3_new_def r Vector3_get_def Vector3_set_def flat_index_def inr_def Let_def)
qed

text \<open>
  C10. The reduction buffer of \<open>compResidual\<close> has \<open>16 * THREAD_OFFSET\<close> slots with
  \<open>THREAD_OFFSET = 64 / sizeof(double) = 8\<close>, and thread \<open>tid\<close> accumulates into slot
  \<open>tid * THREAD_OFFSET\<close>, 8 doubles (64 bytes) after the slot of thread \<open>tid - 1\<close>. That slot is inside the buffer exactly when \<open>tid < 16\<close>;
  so the accumulation \<open>shards[omp_rank] += r * r\<close> is defined exactly for thread
  numbers below 16.
\<close>

theorem shards_access_in_bounds_iff:
  "length shards_init = 16 * 8
   \<and> THREAD_OFFSET * 8 = CACHE_LINE_SIZE \<and> CACHE_LINE_SIZE = 64
   \<and> omp_rank tid = tid * 8
   \<and> (omp_rank tid < length shards_init \<longleftrightarrow> tid < 16)
   \<and> (shards_add shards_init (omp_rank tid) a \<noteq> None \<longleftrightarrow> tid < 16)"
  by (auto simp: shards_init_def omp_rank_def THREAD_OFFSET_def CACHE_LINE_SIZE_def shards_add_def)

section \<open>Facts about written fields\<close>

lemma wfv_dims:
  assumes "wfv v"
  shows "0 < dimX v" "0 < dimY v" "0 < dimZ v"
    "int (dimX v) < 2 ^ 64" "int (dimY v) < 2 ^ 64" "int (dimZ v) < 2 ^ 64"
proof -
  have len: "length (vals v) = dimX v * dimY v * dimZ v" "0 < length (vals v)"
    "int (length (vals v)) < 2 ^ 64"
    using assms unfolding wfv_def by blast+
  show p: "0 < dimX v" "0 < dimY v" "0 < dimZ v"
    using len(1,2) by (auto intro: Nat.gr0I)
  have "dimX v * 1 \<le> dimX v * (dimY v * dimZ v)" "dimY v * 1 \<le> dimY v * (dimX v * dimZ v)"
    "dimZ v * 1 \<le> dimZ v * (dimX v * dimY v)"
    using p by (auto intro!: mult_le_mono2 simp: Suc_le_eq)
  then have "dimX v \<le> length (vals v)" "dimY v \<le> length (vals v)" "dimZ v \<le> length (vals v)"
    using len(1) by (simp_all add: mult_ac)
  then show "int (dimX v) < 2 ^ 64" "int (dimY v) < 2 ^ 64" "int (dimZ v) < 2 ^ 64"
    using len(3) by linarith+
qed

lemma wfv_same_extent: "same_extent v v0 \<Longrightarrow> wfv v = wfv v0"
  by (simp add: same_extent_def wfv_def)

lemma inr_same_extent: "same_extent v v0 \<Longrightarrow> inr v = inr v0"
  by (simp add: same_extent_def inr_def fun_eq_iff)

lemma same_extent_refl: "same_extent v v"
  by (simp add: same_extent_def)

lemma written_init: "written v0 {} G v0"
  by (simp add: written_def same_extent_def)

lemma written_set:
  assumes "wfv v0" "written v0 D G v" "inr v0 x y z" "a = G x y z"
  shows "\<exists>v'. Vector3_set v x y z a = Some v' \<and> written v0 (insert (x, y, z) D) G v'"
proof -
  have se: "same_extent v v0" using assms(2) by (simp add: written_def)
  have w: "wfv v" "inr v x y z"
    using assms(1,3) wfv_same_extent[OF se] inr_same_extent[OF se] by simp_all
  obtain v' where v': "Vector3_set v x y z a = Some v'"
    using set_inr[OF w] by simp
  have "same_extent v' v0"
    using set_shape[OF v'] se by (simp add: same_extent_def)
  moreover have "cell v' x' y' z' = (if (x', y', z') \<in> insert (x, y, z) D then G x' y' z' else cell v0 x' y' z')"
    if "inr v0 x' y' z'" for x' y' z'
  proof -
    have "inr v x' y' z'" using that inr_same_extent[OF se] by simp
    from set_cell[OF w v' this] assms(2,4) that show ?thesis
      by (auto simp: written_def)
  qed
  ultimately show ?thesis using v' by (simp add: written_def)
qed

lemma box3_prod: "box3 A B C = A \<times> B \<times> C"
  by (auto simp: box3_def)

lemma rng1: "rng 1 lo hi = {lo..<hi}"
  by (auto simp: rng_def)

section \<open>Restriction\<close>

lemma restrict_value_sum:
  assumes "wfv fine" "\<And>ii jj kk. ii \<in> {-1..1} \<Longrightarrow> jj \<in> {-1..1} \<Longrightarrow> kk \<in> {-1..1} \<Longrightarrow> inr fine (xc + ii) (yc + jj) (zc + kk)"
  shows "restrict_value fine xc yc zc =
     Some (\<Sum>ii\<in>{-1..1}. \<Sum>jj\<in>{-1..1}. \<Sum>kk\<in>{-1..1}. restrict_fac ii jj kk * cell fine (xc + ii) (yc + jj) (zc + kk))"
proof -
  let ?t = "\<lambda>(ii, jj, kk). restrict_fac ii jj kk * cell fine (xc + ii) (yc + jj) (zc + kk)"
  let ?R = "\<lambda>D acc. acc = sum ?t D"
  have r: "rng 1 (-2 + 1) 2 = {-1..1}" by (auto simp: rng_def)
  have "\<exists>s'. restrict_value fine xc yc zc = Some s' \<and> ?R (box3 {-1..1} {-1..1} {-1..1}) s'"
    unfolding restrict_value_def r[symmetric]
  proof (rule nest3_rule[where R = ?R])
    fix D ii jj kk s
    assume a: "s = sum ?t D" "finite D" "(ii, jj, kk) \<in> box3 (rng 1 (-2 + 1) 2) (rng 1 (-2 + 1) 2) (rng 1 (-2 + 1) 2)"
      "(ii, jj, kk) \<notin> D"
    then have "inr fine (xc + ii) (yc + jj) (zc + kk)"
      unfolding r box3_def by (intro assms(2)) auto
    then show "\<exists>s'. (let fac = restrict_fac ii jj kk in
              Vector3_get fine (xc + ii) (yc + jj) (zc + kk) \<bind> (\<lambda>fv. Some (s + fac * fv))) = Some s'
            \<and> s' = sum ?t (insert (ii, jj, kk) D)"
      using a(1,2,4) by (simp add: get_inr[OF assms(1)])
  qed simp_all
  then show ?thesis
    by (simp add: box3_prod sum.cartesian_product)
qed


lemma interior_box:
  assumes "wfv c"
  shows "box3 (rng 1 1 ((int (dimX c) - 1) mod 2 ^ 64)) (rng 1 1 ((int (dimY c) - 1) mod 2 ^ 64))
              (rng 1 1 ((int (dimZ c) - 1) mod 2 ^ 64)) = {(x, y, z). interior c x y z}"
proof -
  have "(int (dimX c) - 1) mod 2 ^ 64 = int (dimX c) - 1" "(int (dimY c) - 1) mod 2 ^ 64 = int (dimY c) - 1"
    "(int (dimZ c) - 1) mod 2 ^ 64 = int (dimZ c) - 1"
    using wfv_dims[OF assms] by simp_all
  then show ?thesis
    by (auto simp: box3_def rng1 interior_def)
qed

lemma interior_inr: "interior c x y z \<Longrightarrow> inr c x y z"
  by (simp add: interior_def inr_def)

lemma restrict_written:
  assumes "wfv fine" "wfv coarse"
    and dims: "2 * dimX coarse \<le> dimX fine + 2" "2 * dimY coarse \<le> dimY fine + 2"
      "2 * dimZ coarse \<le> dimZ fine + 2"
  shows "\<exists>c'. restrict fine coarse = Some c'
           \<and> written coarse {(x, y, z). interior coarse x y z} (restrict_sum fine) c'"
  unfolding restrict_def interior_box[OF assms(2), symmetric]
proof (rule nest3_rule[where R = "\<lambda>D. written coarse D (restrict_sum fine)"])
  fix D x y z s
  assume a: "written coarse D (restrict_sum fine) s"
    "(x, y, z) \<in> box3 (rng 1 1 ((int (dimX coarse) - 1) mod 2 ^ 64))
        (rng 1 1 ((int (dimY coarse) - 1) mod 2 ^ 64)) (rng 1 1 ((int (dimZ coarse) - 1) mod 2 ^ 64))"
  then have i: "interior coarse x y z"
    unfolding interior_box[OF assms(2)] by simp
  have "inr fine (2 * x + ii) (2 * y + jj) (2 * z + kk)"
    if "ii \<in> {-1..1}" "jj \<in> {-1..1}" "kk \<in> {-1..1}" for ii jj kk
    using that i dims by (auto simp: interior_def inr_def)
  then have "restrict_value fine (2 * x) (2 * y) (2 * z) = Some (restrict_sum fine x y z)"
    unfolding restrict_sum_def by (intro restrict_value_sum assms(1))
  then have "restrict_point fine x y z s = Vector3_set s x y z (restrict_sum fine x y z)"
    by (simp add: restrict_point_def)
  then show "\<exists>s'. restrict_point fine x y z s = Some s' \<and> written coarse (insert (x, y, z) D) (restrict_sum fine) s'"
    using written_set[OF assms(2) a(1) interior_inr[OF i]] by simp
qed (simp_all add: written_init)


lemma const_field_cell:
  assumes "wfv (const_field a b d c)" "inr (const_field a b d c) x y z"
  shows "cell (const_field a b d c) x y z = c"
proof -
  have "nat (flat_index (const_field a b d c) x y z) < length (vals (const_field a b d c))"
    using flat_index_lt[OF assms] by linarith
  then show ?thesis
    by (simp add: cell_def const_field_def)
qed


section \<open>The residual kernel\<close>

lemma sum_int_nat: "(\<Sum>i\<in>{0..<int n}. g (nat i)) = (\<Sum>i<n. g i)"
  by (rule sum.reindex_bij_witness[of _ int nat]) auto

lemma stencil_sum_eq:
  assumes "wfv vin" "stencil_ok st"
    and "1 \<le> x" "x < int (dimX vin) - 1" "1 \<le> y" "y < int (dimY vin) - 1" "1 \<le> z" "z < int (dimZ vin) - 1"
  shows "stencil_sum st vin x y z = Some (stencil_apply st vin x y z)"
proof -
  let ?n = "length (stencil_values st)"
  let ?t = "\<lambda>i. stencil_values st ! nat i
          * cell vin (x + fst (stencil_offsets st ! nat i)) (y + fst (snd (stencil_offsets st ! nat i)))
                     (z + snd (snd (stencil_offsets st ! nat i)))"
  have len: "length (stencil_offsets st) = ?n" using assms(2) by (simp add: stencil_ok_def)
  have "\<exists>s'. stencil_sum st vin x y z = Some s' \<and> s' = sum ?t (rng 1 0 (int ?n))"
    unfolding stencil_sum_def
  proof (rule for_loop_rule[where P = "\<lambda>X acc. acc = sum ?t X"])
    fix X i s
    assume a: "s = sum ?t X" "finite X" "i \<in> rng 1 0 (int ?n)" "i \<notin> X"
    then have i: "nat i < length (stencil_offsets st)" by (simp add: rng_def len nat_less_iff)
    then have "stencil_offsets st ! nat i \<in> set (stencil_offsets st)" by simp
    then have b: "\<bar>fst (stencil_offsets st ! nat i)\<bar> \<le> 1" "\<bar>fst (snd (stencil_offsets st ! nat i))\<bar> \<le> 1"
      "\<bar>snd (snd (stencil_offsets st ! nat i))\<bar> \<le> 1"
      using assms(2) by (auto simp: stencil_ok_def)
    have "inr vin (x + fst (stencil_offsets st ! nat i)) (y + fst (snd (stencil_offsets st ! nat i)))
                     (z + snd (snd (stencil_offsets st ! nat i)))"
      using b assms(3-8) unfolding inr_def by (intro conjI) linarith+
    then show "\<exists>s'. stencil_term st vin x y z i s = Some s' \<and> s' = sum ?t (insert i X)"
      using a(1,2,4) i
      by (simp add: stencil_term_def getXOffset_def getYOffset_def getZOffset_def get_inr[OF assms(1)])
  qed simp_all
  then show ?thesis
    by (simp add: rng1 stencil_apply_def sum_int_nat[of "\<lambda>i. stencil_values st ! i
          * cell vin (x + fst (stencil_offsets st ! i)) (y + fst (snd (stencil_offsets st ! i)))
                     (z + snd (snd (stencil_offsets st ! i)))"])
qed

lemma shard_total_init: "shard_total shards_init = 0"
proof -
  have "shards_init ! nat i = 0" if "i \<in> rng (int THREAD_OFFSET) 0 (int (length shards_init))" for i
  proof -
    have "nat i < 16 * THREAD_OFFSET"
      using that by (simp add: rng_def shards_init_def nat_less_iff)
    then show ?thesis by (simp add: shards_init_def)
  qed
  then show ?thesis by (simp add: shard_total_def)
qed

lemma shards_add_total:
  assumes "tid < 16" "length sh = 16 * THREAD_OFFSET"
  shows "\<exists>sh'. shards_add sh (omp_rank tid) a = Some sh' \<and> length sh' = length sh
           \<and> shard_total sh' = shard_total sh + a"
proof -
  let ?k = "omp_rank tid"
  let ?S = "rng (int THREAD_OFFSET) 0 (int (length sh))"
  have k: "?k < length sh" using assms by (simp add: omp_rank_def THREAD_OFFSET_def CACHE_LINE_SIZE_def)
  have "int ?k < int (length sh)" using k by (simp only: of_nat_less_iff)
  moreover have "int THREAD_OFFSET dvd int ?k" by (simp add: omp_rank_def)
  ultimately have kin: "int ?k \<in> ?S" by (simp add: rng_def)
  let ?sh' = "sh[?k := sh ! ?k + a]"
  have "(\<Sum>i\<in>?S. ?sh' ! nat i) = (\<Sum>i\<in>?S. if i = int ?k then sh ! ?k + a else sh ! nat i)"
  proof (rule sum.cong[OF refl])
    fix i assume "i \<in> ?S"
    then have "0 \<le> i" "nat i < length sh" by (auto simp: rng_def)
    then show "?sh' ! nat i = (if i = int ?k then sh ! ?k + a else sh ! nat i)"
      using k by (auto simp: nth_list_update)
  qed
  also have "\<dots> = (sh ! ?k + a) + (\<Sum>i\<in>?S - {int ?k}. sh ! nat i)"
    using kin finite_rng[of "int THREAD_OFFSET" 0 "int (length sh)"]
    by (subst sum.remove[of _ "int ?k"]) (auto intro!: sum.cong)
  also have "\<dots> = a + (\<Sum>i\<in>?S. sh ! nat i)"
    using kin finite_rng[of "int THREAD_OFFSET" 0 "int (length sh)"]
    by (subst (2) sum.remove[of _ "int ?k"]) auto
  finally have "shard_total ?sh' = shard_total sh + a"
    by (simp add: shard_total_def)
  then show ?thesis using k by (simp add: shards_add_def)
qed

lemma shard_loop:
  "for_loop (int THREAD_OFFSET) 0 (int (length sh)) (\<lambda>i res. Some (res + sh ! nat i)) 0 = Some (shard_total sh)"
proof -
  have "\<exists>s'. for_loop (int THREAD_OFFSET) 0 (int (length sh)) (\<lambda>i res. Some (res + sh ! nat i)) 0 = Some s'
          \<and> s' = sum (\<lambda>i. sh ! nat i) (rng (int THREAD_OFFSET) 0 (int (length sh)))"
    by (rule for_loop_rule[where P = "\<lambda>X acc. acc = sum (\<lambda>i. sh ! nat i) X"])
       (simp_all add: THREAD_OFFSET_def CACHE_LINE_SIZE_def)
  then show ?thesis by (simp add: shard_total_def)
qed

lemma level_box:
  "box3 (rng 1 1 (int (levelDimX L) + 1)) (rng 1 1 (int (levelDimY L) + 1)) (rng 1 1 (int (levelDimZ L) + 1))
     = level_pts L"
  by (auto simp: box3_def rng1 level_pts_def)

lemma finite_level_pts: "finite (level_pts L)"
proof -
  have "level_pts L = {1..int (levelDimX L)} \<times> {1..int (levelDimY L)} \<times> {1..int (levelDimZ L)}"
    by (auto simp: level_pts_def)
  then show ?thesis by simp
qed

lemma padded_pts:
  assumes "padded L u" "(x, y, z) \<in> level_pts L"
  shows "inr u x y z" "interior u x y z"
  using assms by (auto simp: padded_def level_pts_def inr_def interior_def)

lemma padded_interior: "padded L u \<Longrightarrow> interior u x y z \<longleftrightarrow> (x, y, z) \<in> level_pts L"
  by (auto simp: padded_def level_pts_def interior_def)

lemma compResidual_nest:
  assumes pv: "padded L (level_v L)" and pf: "padded L (level_f L)" and pr: "padded L (level_r L)"
    and st: "stencil_ok (stencil grid)"
    and th: "\<And>x. 1 \<le> x \<Longrightarrow> x \<le> int (levelDimX L) \<Longrightarrow> thr x < 16"
  shows "\<exists>r' sh.
       for_loop 1 1 (int (levelDimX L) + 1) (\<lambda>x.
         for_loop 1 1 (int (levelDimY L) + 1) (\<lambda>y.
           for_loop 1 1 (int (levelDimZ L) + 1) (\<lambda>z.
             compResidual_point grid (omp_rank (thr x)) x y z)))
         (L, shards_init) = Some (L\<lparr>level_r := r'\<rparr>, sh)
       \<and> written (level_r L) (level_pts L) (resid_val grid L) r'
       \<and> shard_total sh = (\<Sum>(x, y, z)\<in>level_pts L. (resid_val grid L x y z)\<^sup>2)"
proof -
  let ?G = "resid_val grid L"
  let ?R = "\<lambda>D (L', sh). (\<exists>r'. L' = L\<lparr>level_r := r'\<rparr> \<and> written (level_r L) D ?G r')
              \<and> length sh = 16 * THREAD_OFFSET
              \<and> shard_total sh = (\<Sum>(x, y, z)\<in>D. (?G x y z)\<^sup>2)"
  have wv: "wfv (level_v L)" and wf: "wfv (level_f L)" and wr: "wfv (level_r L)"
    using pv pf pr by (simp_all add: padded_def)
  have "\<exists>s'. for_loop 1 1 (int (levelDimX L) + 1) (\<lambda>x.
         for_loop 1 1 (int (levelDimY L) + 1) (\<lambda>y.
           for_loop 1 1 (int (levelDimZ L) + 1) (\<lambda>z.
             compResidual_point grid (omp_rank (thr x)) x y z)))
         (L, shards_init) = Some s'
       \<and> ?R (box3 (rng 1 1 (int (levelDimX L) + 1)) (rng 1 1 (int (levelDimY L) + 1))
                  (rng 1 1 (int (levelDimZ L) + 1))) s'"
  proof (rule nest3_rule[where R = ?R])
    have "length shards_init = 16 * THREAD_OFFSET" by (simp add: shards_init_def)
    then show "?R {} (L, shards_init)"
      using written_init[of "level_r L" ?G] shard_total_init
      by (auto intro!: exI[of _ "level_r L"])
  next
    fix D x y z s
    assume a: "?R D s" "finite D"
      "(x, y, z) \<in> box3 (rng 1 1 (int (levelDimX L) + 1)) (rng 1 1 (int (levelDimY L) + 1))
                  (rng 1 1 (int (levelDimZ L) + 1))"
      "(x, y, z) \<notin> D"
    obtain L' sh where s: "s = (L', sh)" by (cases s)
    from a(1) s obtain r' where r': "L' = L\<lparr>level_r := r'\<rparr>" "written (level_r L) D ?G r'"
      and sh: "length sh = 16 * THREAD_OFFSET" "shard_total sh = (\<Sum>(x, y, z)\<in>D. (?G x y z)\<^sup>2)"
      by auto
    have p: "(x, y, z) \<in> level_pts L" using a(3) by (simp add: level_box)
    have i: "interior (level_v L) x y z" using padded_pts[OF pv p] by simp
    have s1: "stencil_sum (stencil grid) (level_v L) x y z = Some (stencil_apply (stencil grid) (level_v L) x y z)"
      using i by (intro stencil_sum_eq wv st) (simp_all add: interior_def)
    have g1: "Vector3_get (level_v L) x y z = Some (cell (level_v L) x y z)"
      using padded_pts(1)[OF pv p] by (rule get_inr[OF wv])
    have g2: "Vector3_get (level_f L) x y z = Some (cell (level_f L) x y z)"
      using padded_pts(1)[OF pf p] by (rule get_inr[OF wf])
    obtain r'' where r'': "Vector3_set r' x y z (?G x y z) = Some r''"
       "written (level_r L) (insert (x, y, z) D) ?G r''"
      using written_set[OF wr r'(2) padded_pts(1)[OF pr p] refl] by blast
    have "thr x < 16" using p by (intro th) (simp_all add: level_pts_def)
    then obtain sh' where sh': "shards_add sh (omp_rank (thr x)) (?G x y z * ?G x y z) = Some sh'"
      "length sh' = length sh" "shard_total sh' = shard_total sh + ?G x y z * ?G x y z"
      using shards_add_total[OF _ sh(1)] by blast
    have "compResidual_point grid (omp_rank (thr x)) x y z s =
            Vector3_set r' x y z (?G x y z) \<bind> (\<lambda>r''.
              shards_add sh (omp_rank (thr x)) (?G x y z * ?G x y z) \<bind> (\<lambda>sh'.
                Some (L\<lparr>level_r := r''\<rparr>, sh')))"
      using s1 g1 g2
      by (cases "isLinear grid") (simp_all add: compResidual_point_def s r'(1) resid_val_def Let_def)
    then have "compResidual_point grid (omp_rank (thr x)) x y z s = Some (L\<lparr>level_r := r''\<rparr>, sh')"
      using r''(1) sh'(1) by simp
    moreover have "?R (insert (x, y, z) D) (L\<lparr>level_r := r''\<rparr>, sh')"
      using r''(2) sh sh'(2,3) a(2,4) by (auto simp: power2_eq_square)
    ultimately show "\<exists>s'. compResidual_point grid (omp_rank (thr x)) x y z s = Some s' \<and> ?R (insert (x, y, z) D) s'"
      by blast
  qed simp_all
  then show ?thesis
    unfolding level_box by auto
qed

lemma compResidual_spec:
  assumes "getLevel grid n = Some L"
    and "padded L (level_v L)" "padded L (level_f L)" "padded L (level_r L)"
    and "stencil_ok (stencil grid)"
    and "\<And>x. 1 \<le> x \<Longrightarrow> x \<le> int (levelDimX L) \<Longrightarrow> thr x < 16"
  shows "\<exists>r'. compResidual thr grid n
            = Some (sqrt (\<Sum>(x, y, z)\<in>level_pts L. (resid_val grid L x y z)\<^sup>2),
                    putLevel grid n (L\<lparr>level_r := r'\<rparr>))
          \<and> written (level_r L) (level_pts L) (resid_val grid L) r'"
proof -
  obtain r' sh where
    nest: "for_loop 1 1 (int (levelDimX L) + 1) (\<lambda>x.
         for_loop 1 1 (int (levelDimY L) + 1) (\<lambda>y.
           for_loop 1 1 (int (levelDimZ L) + 1) (\<lambda>z.
             compResidual_point grid (omp_rank (thr x)) x y z)))
         (L, shards_init) = Some (L\<lparr>level_r := r'\<rparr>, sh)"
    and w: "written (level_r L) (level_pts L) (resid_val grid L) r'"
    and t: "shard_total sh = (\<Sum>(x, y, z)\<in>level_pts L. (resid_val grid L x y z)\<^sup>2)"
    using compResidual_nest[where thr = thr, OF assms(2-5)] assms(6) by blast
  have "compResidual thr grid n
            = Some (sqrt (\<Sum>(x, y, z)\<in>level_pts L. (resid_val grid L x y z)\<^sup>2),
                    putLevel grid n (L\<lparr>level_r := r'\<rparr>))"
    by (simp add: compResidual_def assms(1) nest shard_loop t)
  with w show ?thesis by blast
qed

lemma getLevel_putLevel:
  "n < length (levels grid) \<Longrightarrow> getLevel (putLevel grid n L) m = (if m = n then Some L else getLevel grid m)"
  by (auto simp: getLevel_def putLevel_def)

lemma getLevel_Some: "getLevel grid n = Some L \<Longrightarrow> n < length (levels grid) \<and> levels grid ! n = L"
  by (auto simp: getLevel_def split: if_splits)

lemma written_get:
  assumes "wfv v0" "written v0 D G v" "inr v0 x y z"
  shows "Vector3_get v x y z = Some (if (x, y, z) \<in> D then G x y z else cell v0 x y z)"
    and "cell v x y z = (if (x, y, z) \<in> D then G x y z else cell v0 x y z)"
proof -
  have se: "same_extent v v0" using assms(2) by (simp add: written_def)
  show c: "cell v x y z = (if (x, y, z) \<in> D then G x y z else cell v0 x y z)"
    using assms(2,3) by (simp add: written_def)
  have "Vector3_get v x y z = Some (cell v x y z)"
    using assms(1,3) wfv_same_extent[OF se] inr_same_extent[OF se] by (intro get_inr) simp_all
  then show "Vector3_get v x y z = Some (if (x, y, z) \<in> D then G x y z else cell v0 x y z)"
    using c by simp
qed



lemma wfv_const_field: "0 < a * b * d \<Longrightarrow> int (a * b * d) < 2 ^ 64 \<Longrightarrow> wfv (const_field a b d c)"
  by (simp add: wfv_def const_field_def)

lemma wfv_new: "0 < a * b * d \<Longrightarrow> int (a * b * d) < 2 ^ 64 \<Longrightarrow> wfv (Vector3_new a b d)"
proof -
  assume a: "0 < a * b * d" "int (a * b * d) < 2 ^ 64"
  have "int (a * b * d) < int (2 ^ 64)" using a(2) by simp
  then have "a * b * d < 2 ^ 64" by (simp only: of_nat_less_iff)
  then have "(a * b * d) mod 2 ^ 64 = a * b * d" by (rule mod_less)
  then show ?thesis using a by (simp add: wfv_def Vector3_new_def)
qed

lemma level1_padded:
  "padded level1 (level_v level1)" "padded level1 (level_f level1)" "padded level1 (level_r level1)"
  "padded level1 (level_e level1)" "padded level1 (level_restV level1)"
  by (simp_all add: padded_def level1_def wfv_const_field wfv_new)
     (simp_all add: const_field_def Vector3_new_def)

lemma laplace7_ok: "stencil_ok laplace7"
  by (simp add: stencil_ok_def laplace7_def)


section \<open>The smoother\<close>

lemma putLevel_fields [simp]:
  "stencil (putLevel g n L) = stencil g" "isLinear (putLevel g n L) = isLinear g"
  "gamma (putLevel g n L) = gamma g" "omega (putLevel g n L) = omega g"
  "preSmoothing (putLevel g n L) = preSmoothing g" "postSmoothing (putLevel g n L) = postSmoothing g"
  "maxiter (putLevel g n L) = maxiter g" "length (levels (putLevel g n L)) = length (levels g)"
  "numLevels (putLevel g n L) = numLevels g"
  by (simp_all add: putLevel_def numLevels_def)

lemma putLevel_putLevel [simp]: "putLevel (putLevel g n L) n L' = putLevel g n L'"
  by (simp add: putLevel_def)

lemma putLevel_same: "getLevel g n = Some L \<Longrightarrow> putLevel g n L = g"
  by (auto simp: putLevel_def getLevel_def split: if_splits)

lemma written_padded: "padded L v0 \<Longrightarrow> written v0 D G v \<Longrightarrow> padded L v"
  using wfv_same_extent[of v v0] by (auto simp: padded_def written_def same_extent_def)

lemma jacobi_nest:
  assumes pv: "padded L (level_v L)" and pr: "padded L (level_r L)"
  shows "\<exists>v'.
       for_loop 1 1 (int (levelDimX L) + 1) (\<lambda>x.
         for_loop 1 1 (int (levelDimY L) + 1) (\<lambda>y.
           for_loop 1 1 (int (levelDimZ L) + 1) (\<lambda>z.
             jacobi_point grid preFac alpha x y z)))
         L = Some (L\<lparr>level_v := v'\<rparr>)
       \<and> written (level_v L) (level_pts L) (jacobi_val grid preFac alpha (level_v L) (level_r L)) v'"
proof -
  let ?G = "jacobi_val grid preFac alpha (level_v L) (level_r L)"
  let ?R = "\<lambda>D L'. \<exists>v'. L' = L\<lparr>level_v := v'\<rparr> \<and> written (level_v L) D ?G v'"
  have wv: "wfv (level_v L)" and wr: "wfv (level_r L)"
    using pv pr by (simp_all add: padded_def)
  have "\<exists>s'. for_loop 1 1 (int (levelDimX L) + 1) (\<lambda>x.
         for_loop 1 1 (int (levelDimY L) + 1) (\<lambda>y.
           for_loop 1 1 (int (levelDimZ L) + 1) (\<lambda>z.
             jacobi_point grid preFac alpha x y z)))
         L = Some s'
       \<and> ?R (box3 (rng 1 1 (int (levelDimX L) + 1)) (rng 1 1 (int (levelDimY L) + 1))
                  (rng 1 1 (int (levelDimZ L) + 1))) s'"
  proof (rule nest3_rule[where R = ?R])
    show "?R {} L"
      using written_init[of "level_v L" ?G] by (auto intro!: exI[of _ "level_v L"])
  next
    fix D x y z s
    assume a: "?R D s" "finite D"
      "(x, y, z) \<in> box3 (rng 1 1 (int (levelDimX L) + 1)) (rng 1 1 (int (levelDimY L) + 1))
                  (rng 1 1 (int (levelDimZ L) + 1))"
      "(x, y, z) \<notin> D"
    from a(1) obtain v' where v': "s = L\<lparr>level_v := v'\<rparr>" "written (level_v L) D ?G v'"
      by auto
    have p: "(x, y, z) \<in> level_pts L" using a(3) by (simp add: level_box)
    have g1: "Vector3_get v' x y z = Some (cell (level_v L) x y z)"
      using written_get(1)[OF wv v'(2) padded_pts(1)[OF pv p]] a(4) by simp
    have g2: "Vector3_get (level_r L) x y z = Some (cell (level_r L) x y z)"
      using padded_pts(1)[OF pr p] by (rule get_inr[OF wr])
    obtain v'' where v'': "Vector3_set v' x y z (?G x y z) = Some v''"
       "written (level_v L) (insert (x, y, z) D) ?G v''"
      using written_set[OF wv v'(2) padded_pts(1)[OF pv p] refl] by blast
    have "jacobi_point grid preFac alpha x y z s = Vector3_set v' x y z (?G x y z) \<bind> (\<lambda>v''. Some (L\<lparr>level_v := v''\<rparr>))"
      using g1 g2
      by (cases "isLinear grid") (simp_all add: jacobi_point_def v'(1) jacobi_val_def Let_def)
    then have "jacobi_point grid preFac alpha x y z s = Some (L\<lparr>level_v := v''\<rparr>)"
      using v''(1) by simp
    then show "\<exists>s'. jacobi_point grid preFac alpha x y z s = Some s' \<and> ?R (insert (x, y, z) D) s'"
      using v''(2) by blast
  qed simp_all
  then show ?thesis
    unfolding level_box by auto
qed

lemma jacobi_sweep_spec:
  assumes "getLevel grid n = Some L"
    and "padded L (level_v L)" "padded L (level_f L)" "padded L (level_r L)"
    and "stencil_ok (stencil grid)"
    and "\<And>x. 1 \<le> x \<Longrightarrow> x \<le> int (levelDimX L) \<Longrightarrow> thr x < 16"
  shows "\<exists>r' v'. jacobi_sweep thr n preFac alpha grid = Some (putLevel grid n (L\<lparr>level_r := r', level_v := v'\<rparr>))
          \<and> written (level_r L) (level_pts L) (resid_val grid L) r'
          \<and> written (level_v L) (level_pts L) (jacobi_val grid preFac alpha (level_v L) r') v'"
proof -
  obtain r' where c: "compResidual thr grid n
            = Some (sqrt (\<Sum>(x, y, z)\<in>level_pts L. (resid_val grid L x y z)\<^sup>2),
                    putLevel grid n (L\<lparr>level_r := r'\<rparr>))"
    and w: "written (level_r L) (level_pts L) (resid_val grid L) r'"
    using compResidual_spec[where thr = thr, OF assms(1-5)] assms(6) by blast
  let ?L1 = "L\<lparr>level_r := r'\<rparr>"
  let ?g1 = "putLevel grid n ?L1"
  have lv: "n < length (levels grid)" using getLevel_Some[OF assms(1)] by simp
  have gl: "getLevel ?g1 n = Some ?L1" by (simp add: getLevel_putLevel lv)
  have p1: "padded ?L1 (level_v ?L1)" "padded ?L1 (level_r ?L1)"
    using assms(2) written_padded[OF assms(4) w] by (simp_all add: padded_def)
  obtain v' where nest: "for_loop 1 1 (int (levelDimX ?L1) + 1) (\<lambda>x.
         for_loop 1 1 (int (levelDimY ?L1) + 1) (\<lambda>y.
           for_loop 1 1 (int (levelDimZ ?L1) + 1) (\<lambda>z.
             jacobi_point ?g1 preFac alpha x y z)))
         ?L1 = Some (?L1\<lparr>level_v := v'\<rparr>)"
    and wv: "written (level_v ?L1) (level_pts ?L1) (jacobi_val ?g1 preFac alpha (level_v ?L1) (level_r ?L1)) v'"
    using jacobi_nest[OF p1, of ?g1 preFac alpha] by blast
  have jv: "jacobi_val ?g1 preFac alpha = jacobi_val grid preFac alpha"
    by (simp add: jacobi_val_def fun_eq_iff)
  have lp: "level_pts ?L1 = level_pts L" by (simp add: level_pts_def)
  have "jacobi_sweep thr n preFac alpha grid = Some (putLevel grid n (L\<lparr>level_r := r', level_v := v'\<rparr>))"
    using nest by (simp add: jacobi_sweep_def c gl)
  moreover have "written (level_v L) (level_pts L) (jacobi_val grid preFac alpha (level_v L) r') v'"
    using wv by (simp add: jv lp)
  ultimately show ?thesis using w by blast
qed

lemma for_loop_snoc:
  "lo \<le> hi \<Longrightarrow> for_loop 1 lo (hi + 1) body s
     = (case for_loop 1 lo hi body s of None \<Rightarrow> None | Some s' \<Rightarrow> body hi s')"
proof (induction "nat (hi - lo)" arbitrary: lo s)
  case 0
  then have "lo = hi" by simp
  then show ?case
    by (simp add: for_loop.simps[of 1 hi] for_loop.simps[of 1 "hi + 1"] split: option.splits)
next
  case (Suc k)
  then have lt: "lo < hi" by linarith
  have ih: "for_loop 1 (lo + 1) (hi + 1) body s' =
         (case for_loop 1 (lo + 1) hi body s' of None \<Rightarrow> None | Some s'' \<Rightarrow> body hi s'')" for s'
    using Suc(2) lt by (intro Suc(1)) auto
  have l: "for_loop 1 lo (hi + 1) body s =
         (case body lo s of None \<Rightarrow> None | Some s' \<Rightarrow> for_loop 1 (lo + 1) (hi + 1) body s')"
    using lt by (subst for_loop.simps) simp
  have r: "for_loop 1 lo hi body s =
         (case body lo s of None \<Rightarrow> None | Some s' \<Rightarrow> for_loop 1 (lo + 1) hi body s')"
    using lt by (subst for_loop.simps) simp
  show ?case
    by (simp add: l r ih split: option.splits)
qed

lemma frame_eq_refl: "frame_eq D v v"
  by (simp add: frame_eq_def same_extent_def)

lemma written_frame_eq: "written v0 D G v \<Longrightarrow> frame_eq D v0 v"
  by (simp add: frame_eq_def written_def)

lemma frame_eq_trans: "frame_eq D v0 v1 \<Longrightarrow> frame_eq D v1 v2 \<Longrightarrow> frame_eq D v0 v2"
  using inr_same_extent[of v1 v0] by (auto simp: frame_eq_def same_extent_def)

lemma frame_eq_padded: "padded L v0 \<Longrightarrow> frame_eq D v0 v \<Longrightarrow> padded L v"
  using wfv_same_extent[of v v0] by (auto simp: padded_def frame_eq_def same_extent_def)

lemma jacobi_unfold:
  assumes "getLevel grid n = Some L" "stencil_values (stencil grid) \<noteq> []"
  shows "jacobi thr grid n k =
     for_loop 1 0 (int k) (\<lambda>i. jacobi_sweep thr n
        (stencil_values (stencil grid) ! 0 / (level_h L * level_h L))
        (level_h L * level_h L / stencil_values (stencil grid) ! 0)) grid"
  using assms by (simp add: jacobi_def Let_def)

lemma jacobi_total:
  assumes "getLevel grid n = Some L"
    and "padded L (level_v L)" "padded L (level_f L)" "padded L (level_r L)"
    and "stencil_ok (stencil grid)" "stencil_values (stencil grid) \<noteq> []"
    and "\<And>x. 1 \<le> x \<Longrightarrow> x \<le> int (levelDimX L) \<Longrightarrow> thr x < 16"
  shows "\<exists>r' v'. jacobi thr grid n k = Some (putLevel grid n (L\<lparr>level_r := r', level_v := v'\<rparr>))
          \<and> frame_eq (level_pts L) (level_r L) r' \<and> frame_eq (level_pts L) (level_v L) v'"
proof -
  let ?I = "\<lambda>g. \<exists>r' v'. g = putLevel grid n (L\<lparr>level_r := r', level_v := v'\<rparr>)
          \<and> frame_eq (level_pts L) (level_r L) r' \<and> frame_eq (level_pts L) (level_v L) v'"
  let ?pf = "stencil_values (stencil grid) ! 0 / (level_h L * level_h L)"
  let ?al = "level_h L * level_h L / stencil_values (stencil grid) ! 0"
  have lv: "n < length (levels grid)" using getLevel_Some[OF assms(1)] by simp
  have "\<exists>s'. for_loop 1 0 (int k) (\<lambda>i. jacobi_sweep thr n ?pf ?al) grid = Some s' \<and> ?I s'"
  proof (rule for_loop_inv[where I = ?I])
    have "grid = putLevel grid n (L\<lparr>level_r := level_r L, level_v := level_v L\<rparr>)"
      using putLevel_same[OF assms(1)] by simp
    then show "?I grid" using frame_eq_refl by blast
  next
    fix i g
    assume "?I g"
    then obtain r1 v1 where g: "g = putLevel grid n (L\<lparr>level_r := r1, level_v := v1\<rparr>)"
      and f1: "frame_eq (level_pts L) (level_r L) r1" "frame_eq (level_pts L) (level_v L) v1"
      by blast
    let ?L1 = "L\<lparr>level_r := r1, level_v := v1\<rparr>"
    have gl: "getLevel g n = Some ?L1" by (simp add: g getLevel_putLevel lv)
    have pd: "padded ?L1 (level_v ?L1)" "padded ?L1 (level_f ?L1)" "padded ?L1 (level_r ?L1)"
      using frame_eq_padded[OF assms(2) f1(2)] frame_eq_padded[OF assms(4) f1(1)] assms(3)
      by (simp_all add: padded_def)
    have st: "stencil_ok (stencil g)" using assms(5) by (simp add: g)
    have th: "\<And>x. 1 \<le> x \<Longrightarrow> x \<le> int (levelDimX ?L1) \<Longrightarrow> thr x < 16" using assms(7) by simp
    obtain r2 v2 where sw: "jacobi_sweep thr n ?pf ?al g = Some (putLevel g n (?L1\<lparr>level_r := r2, level_v := v2\<rparr>))"
      and w: "written (level_r ?L1) (level_pts ?L1) (resid_val g ?L1) r2"
        "written (level_v ?L1) (level_pts ?L1) (jacobi_val g ?pf ?al (level_v ?L1) r2) v2"
      using jacobi_sweep_spec[where thr = thr, OF gl pd st th] by blast
    have lp: "level_pts ?L1 = level_pts L" by (simp add: level_pts_def)
    have "frame_eq (level_pts L) r1 r2" "frame_eq (level_pts L) v1 v2"
      using written_frame_eq[OF w(1)] written_frame_eq[OF w(2)] by (simp_all add: lp)
    then have "frame_eq (level_pts L) (level_r L) r2" "frame_eq (level_pts L) (level_v L) v2"
      using frame_eq_trans[OF f1(1)] frame_eq_trans[OF f1(2)] by blast+
    moreover have "putLevel g n (?L1\<lparr>level_r := r2, level_v := v2\<rparr>) = putLevel grid n (L\<lparr>level_r := r2, level_v := v2\<rparr>)"
      by (simp add: g)
    ultimately show "\<exists>s'. jacobi_sweep thr n ?pf ?al g = Some s' \<and> ?I s'"
      using sw by auto
  qed simp
  then show ?thesis
    unfolding jacobi_unfold[OF assms(1,6)] by blast
qed






lemma grid1_params:
  "isLinear grid1" "omega grid1 = 1" "gamma grid1 = 1" "stencil grid1 = laplace7"
  "stencil_values laplace7 ! 0 = 6" "levels grid1 = [level1]"
  by (simp_all add: grid1_def laplace7_def)


section \<open>Interpolation\<close>

lemma avg_nest:
  fixes dx dy dz :: int
  assumes st: "0 < sx" "0 < sy" "0 < sz" and wf: "wfv v0"
    and dir: "(dx, dy, dz) \<in> {(1, 0, 0), (0, 1, 0), (0, 0, 1)}"
    and par: "dx = 1 \<longrightarrow> sx = 2" "dy = 1 \<longrightarrow> sy = 2" "dz = 1 \<longrightarrow> sz = 2"
    and rg: "\<And>x y z. (x, y, z) \<in> box3 (rng sx 0 hx) (rng sy 0 hy) (rng sz 0 hz)
               \<Longrightarrow> inr v0 (x + 2 * dx) (y + 2 * dy) (z + 2 * dz)"
    and body: "\<And>x y z s. body x y z s =
        Vector3_get s x y z \<bind> (\<lambda>a. Vector3_get s (x + 2 * dx) (y + 2 * dy) (z + 2 * dz) \<bind>
          (\<lambda>c. Vector3_set s (x + dx) (y + dy) (z + dz) (0.5 * a + 0.5 * c)))"
  shows "\<exists>v'. for_loop sx 0 hx (\<lambda>x. for_loop sy 0 hy (\<lambda>y. for_loop sz 0 hz (body x y))) v0 = Some v'
       \<and> written v0 ((\<lambda>(x, y, z). (x + dx, y + dy, z + dz)) ` box3 (rng sx 0 hx) (rng sy 0 hy) (rng sz 0 hz))
            (\<lambda>x y z. 0.5 * cell v0 (x - dx) (y - dy) (z - dz) + 0.5 * cell v0 (x + dx) (y + dy) (z + dz)) v'"
proof -
  let ?B = "box3 (rng sx 0 hx) (rng sy 0 hy) (rng sz 0 hz)"
  let ?t = "\<lambda>(x, y, z). (x + dx, y + dy, z + dz)"
  let ?G = "\<lambda>x y z. 0.5 * cell v0 (x - dx) (y - dy) (z - dz) + 0.5 * cell v0 (x + dx) (y + dy) (z + dz)"
  let ?R = "\<lambda>D. written v0 (?t ` D) ?G"
  have d01: "dx \<in> {0, 1}" "dy \<in> {0, 1}" "dz \<in> {0, 1}" using dir by auto
  have ev: "even (x * dx + y * dy + z * dz)" "0 \<le> x" "0 \<le> y" "0 \<le> z" if "(x, y, z) \<in> ?B" for x y z
    using that dir par by (auto simp: box3_def rng_def)
  show ?thesis
  proof (rule nest3_rule[where R = ?R, OF st])
    show "?R {} v0" by (simp add: written_init)
  next
    fix D x y z s
    assume a: "?R D s" "D \<subseteq> ?B" "(x, y, z) \<in> ?B" "(x, y, z) \<notin> D"
    note e = ev[OF a(3)]
    have i2: "inr v0 (x + 2 * dx) (y + 2 * dy) (z + 2 * dz)" using rg[OF a(3)] .
    then have i0: "inr v0 x y z" and i1: "inr v0 (x + dx) (y + dy) (z + dz)"
      using e(2-4) d01 by (auto simp: inr_def)
    have odd_t: "odd (x' * dx + y' * dy + z' * dz)" if "(x', y', z') \<in> ?t ` D" for x' y' z'
    proof -
      from that obtain x0 y0 z0 where q: "(x0, y0, z0) \<in> D" "x' = x0 + dx" "y' = y0 + dy" "z' = z0 + dz"
        by auto
      have "even (x0 * dx + y0 * dy + z0 * dz)" using ev[of x0 y0 z0] q(1) a(2) by blast
      then show ?thesis using dir by (auto simp: q)
    qed
    have n0: "(x, y, z) \<notin> ?t ` D" using odd_t[of x y z] e(1) by blast
    have "even ((x + 2 * dx) * dx + (y + 2 * dy) * dy + (z + 2 * dz) * dz)"
      using e(1) by (simp add: algebra_simps)
    then have n2: "(x + 2 * dx, y + 2 * dy, z + 2 * dz) \<notin> ?t ` D"
      using odd_t[of "x + 2 * dx" "y + 2 * dy" "z + 2 * dz"] by blast
    have g0: "Vector3_get s x y z = Some (cell v0 x y z)"
      using written_get(1)[OF wf a(1) i0] n0 by simp
    have g2: "Vector3_get s (x + 2 * dx) (y + 2 * dy) (z + 2 * dz) = Some (cell v0 (x + 2 * dx) (y + 2 * dy) (z + 2 * dz))"
      using written_get(1)[OF wf a(1) i2] n2 by simp
    have val: "0.5 * cell v0 x y z + 0.5 * cell v0 (x + 2 * dx) (y + 2 * dy) (z + 2 * dz)
                 = ?G (x + dx) (y + dy) (z + dz)"
      by (simp add: algebra_simps)
    obtain v' where v': "Vector3_set s (x + dx) (y + dy) (z + dz)
          (0.5 * cell v0 x y z + 0.5 * cell v0 (x + 2 * dx) (y + 2 * dy) (z + 2 * dz)) = Some v'"
      "written v0 (insert (x + dx, y + dy, z + dz) (?t ` D)) ?G v'"
      using written_set[OF wf a(1) i1 val] by blast
    have "body x y z s = Some v'" using g0 g2 v'(1) by (simp add: body)
    moreover have "?t ` insert (x, y, z) D = insert (x + dx, y + dy, z + dz) (?t ` D)" by simp
    ultimately show "\<exists>s'. body x y z s = Some s' \<and> ?R (insert (x, y, z) D) s'"
      using v'(2) by simp
  qed
qed

lemma rng2: "rng 2 0 hi = {x. even x \<and> 0 \<le> x \<and> x < hi}"
  by (auto simp: rng_def)

lemma prepare_written:
  assumes "wfv coarse" "wfv fine"
    and dims: "dimX fine \<le> 2 * dimX coarse + 1" "dimY fine \<le> 2 * dimY coarse + 1"
      "dimZ fine \<le> 2 * dimZ coarse + 1"
  shows "\<exists>f1. interpolate_prepare coarse fine = Some f1
          \<and> written fine (inj_pts fine) (\<lambda>x y z. cell coarse (x div 2) (y div 2) (z div 2)) f1"
proof -
  let ?G = "\<lambda>x y z. cell coarse (x div 2) (y div 2) (z div 2)"
  have m: "(int (dimX fine) - 1) mod 2 ^ 64 = int (dimX fine) - 1"
    "(int (dimY fine) - 1) mod 2 ^ 64 = int (dimY fine) - 1"
    "(int (dimZ fine) - 1) mod 2 ^ 64 = int (dimZ fine) - 1"
    using wfv_dims[OF assms(2)] by simp_all
  have b: "box3 (rng 2 0 (int (dimX fine) - 1)) (rng 2 0 (int (dimY fine) - 1)) (rng 2 0 (int (dimZ fine) - 1))
             = inj_pts fine"
    by (auto simp: box3_def rng2 inj_pts_def)
  show ?thesis
    unfolding interpolate_prepare_def m b[symmetric]
  proof (rule nest3_rule[where R = "\<lambda>D. written fine D ?G"])
    fix D x y z s
    assume a: "written fine D ?G s"
      "(x, y, z) \<in> box3 (rng 2 0 (int (dimX fine) - 1)) (rng 2 0 (int (dimY fine) - 1)) (rng 2 0 (int (dimZ fine) - 1))"
    then have p: "(x, y, z) \<in> inj_pts fine" by (simp add: b)
    then have "inr coarse (x div 2) (y div 2) (z div 2)"
      using dims unfolding inj_pts_def inr_def by auto
    then have g: "Vector3_get coarse (x div 2) (y div 2) (z div 2) = Some (?G x y z)"
      by (rule get_inr[OF assms(1)])
    have "inr fine x y z" using p by (auto simp: inj_pts_def inr_def)
    from written_set[OF assms(2) a(1) this refl]
    show "\<exists>s'. Vector3_get coarse (x div 2) (y div 2) (z div 2) \<bind> Vector3_set s x y z = Some s'
            \<and> written fine (insert (x, y, z) D) ?G s'"
      by (simp add: g)
  qed (simp_all add: written_init)
qed

lemma shift_image_iff:
  fixes dx dy dz :: int
  shows "(x, y, z) \<in> (\<lambda>(x, y, z). (x + dx, y + dy, z + dz)) ` B \<longleftrightarrow> (x - dx, y - dy, z - dz) \<in> B"
proof
  assume "(x, y, z) \<in> (\<lambda>(x, y, z). (x + dx, y + dy, z + dz)) ` B"
  then obtain x0 y0 z0 where "(x0, y0, z0) \<in> B" "x = x0 + dx" "y = y0 + dy" "z = z0 + dz"
    by auto
  then show "(x - dx, y - dy, z - dz) \<in> B" by simp
next
  assume "(x - dx, y - dy, z - dz) \<in> B"
  then show "(x, y, z) \<in> (\<lambda>(x, y, z). (x + dx, y + dy, z + dz)) ` B"
    by (rule rev_image_eqI) simp
qed

lemma xpass_written:
  assumes "wfv u"
  shows "\<exists>f2. interpolate_x u = Some f2 \<and> written u (xpass_pts u) (avg_x u) f2"
proof -
  let ?B = "box3 (rng 2 0 (int (dimX u) - 2)) (rng 2 0 (int (dimY u))) (rng 2 0 (int (dimZ u)))"
  have im: "(\<lambda>(x, y, z). (x + 1, y + 0, z + 0)) ` ?B = xpass_pts u"
  proof (rule set_eqI)
    fix p :: "int \<times> int \<times> int"
    obtain x y z where p: "p = (x, y, z)" by (cases p)
    have "(x, y, z) \<in> (\<lambda>(x, y, z). (x + 1, y + 0, z + 0)) ` ?B \<longleftrightarrow> (x - 1, y, z) \<in> ?B"
      using shift_image_iff[of x y z 1 0 0 ?B] by simp
    also have "\<dots> \<longleftrightarrow> (x, y, z) \<in> xpass_pts u"
      by (auto simp: box3_def rng2 xpass_pts_def)
    finally show "p \<in> (\<lambda>(x, y, z). (x + 1, y + 0, z + 0)) ` ?B \<longleftrightarrow> p \<in> xpass_pts u"
      by (simp add: p)
  qed
  have "\<exists>v'. for_loop 2 0 (int (dimX u) - 2) (\<lambda>x. for_loop 2 0 (int (dimY u)) (\<lambda>y. for_loop 2 0 (int (dimZ u))
          (\<lambda>z fine. do {
             a \<leftarrow> Vector3_get fine x y z;
             b \<leftarrow> Vector3_get fine (x + 2) y z;
             let val = 0.5 * a + 0.5 * b;
             Vector3_set fine (x + 1) y z val
           }))) u = Some v'
       \<and> written u ((\<lambda>(x, y, z). (x + 1, y + 0, z + 0)) ` ?B)
            (\<lambda>x y z. 0.5 * cell u (x - 1) (y - 0) (z - 0) + 0.5 * cell u (x + 1) (y + 0) (z + 0)) v'"
    by (rule avg_nest[where dx = 1 and dy = 0 and dz = 0, OF _ _ _ assms])
       (auto simp: box3_def rng2 inr_def Let_def)
  then show ?thesis
    unfolding im interpolate_x_def avg_x_def[abs_def] by simp
qed

lemma ypass_written:
  assumes "wfv u"
  shows "\<exists>f3. interpolate_y u = Some f3 \<and> written u (ypass_pts u) (avg_y u) f3"
proof -
  let ?B = "box3 (rng 1 0 (int (dimX u))) (rng 2 0 (int (dimY u) - 2)) (rng 2 0 (int (dimZ u)))"
  have im: "(\<lambda>(x, y, z). (x + 0, y + 1, z + 0)) ` ?B = ypass_pts u"
  proof (rule set_eqI)
    fix p :: "int \<times> int \<times> int"
    obtain x y z where p: "p = (x, y, z)" by (cases p)
    have "(x, y, z) \<in> (\<lambda>(x, y, z). (x + 0, y + 1, z + 0)) ` ?B \<longleftrightarrow> (x, y - 1, z) \<in> ?B"
      using shift_image_iff[of x y z 0 1 0 ?B] by simp
    also have "\<dots> \<longleftrightarrow> (x, y, z) \<in> ypass_pts u"
      by (auto simp: box3_def rng2 rng1 ypass_pts_def)
    finally show "p \<in> (\<lambda>(x, y, z). (x + 0, y + 1, z + 0)) ` ?B \<longleftrightarrow> p \<in> ypass_pts u"
      by (simp add: p)
  qed
  have "\<exists>v'. for_loop 1 0 (int (dimX u)) (\<lambda>x. for_loop 2 0 (int (dimY u) - 2) (\<lambda>y. for_loop 2 0 (int (dimZ u))
          (\<lambda>z fine. do {
             a \<leftarrow> Vector3_get fine x y z;
             b \<leftarrow> Vector3_get fine x (y + 2) z;
             let val = 0.5 * a + 0.5 * b;
             Vector3_set fine x (y + 1) z val
           }))) u = Some v'
       \<and> written u ((\<lambda>(x, y, z). (x + 0, y + 1, z + 0)) ` ?B)
            (\<lambda>x y z. 0.5 * cell u (x - 0) (y - 1) (z - 0) + 0.5 * cell u (x + 0) (y + 1) (z + 0)) v'"
    by (rule avg_nest[where dx = 0 and dy = 1 and dz = 0, OF _ _ _ assms])
       (auto simp: box3_def rng2 rng1 inr_def Let_def)
  then show ?thesis
    unfolding im interpolate_y_def avg_y_def[abs_def] by simp
qed

lemma zpass_written:
  assumes "wfv u"
  shows "\<exists>f4. interpolate_z u = Some f4 \<and> written u (zpass_pts u) (avg_z u) f4"
proof -
  let ?B = "box3 (rng 1 0 (int (dimX u))) (rng 1 0 (int (dimY u))) (rng 2 0 (int (dimZ u) - 2))"
  have im: "(\<lambda>(x, y, z). (x + 0, y + 0, z + 1)) ` ?B = zpass_pts u"
  proof (rule set_eqI)
    fix p :: "int \<times> int \<times> int"
    obtain x y z where p: "p = (x, y, z)" by (cases p)
    have "(x, y, z) \<in> (\<lambda>(x, y, z). (x + 0, y + 0, z + 1)) ` ?B \<longleftrightarrow> (x, y, z - 1) \<in> ?B"
      using shift_image_iff[of x y z 0 0 1 ?B] by simp
    also have "\<dots> \<longleftrightarrow> (x, y, z) \<in> zpass_pts u"
      by (auto simp: box3_def rng2 rng1 zpass_pts_def)
    finally show "p \<in> (\<lambda>(x, y, z). (x + 0, y + 0, z + 1)) ` ?B \<longleftrightarrow> p \<in> zpass_pts u"
      by (simp add: p)
  qed
  have "\<exists>v'. for_loop 1 0 (int (dimX u)) (\<lambda>x. for_loop 1 0 (int (dimY u)) (\<lambda>y. for_loop 2 0 (int (dimZ u) - 2)
          (\<lambda>z fine. do {
             a \<leftarrow> Vector3_get fine x y z;
             b \<leftarrow> Vector3_get fine x y (z + 2);
             let val = 0.5 * a + 0.5 * b;
             Vector3_set fine x y (z + 1) val
           }))) u = Some v'
       \<and> written u ((\<lambda>(x, y, z). (x + 0, y + 0, z + 1)) ` ?B)
            (\<lambda>x y z. 0.5 * cell u (x - 0) (y - 0) (z - 1) + 0.5 * cell u (x + 0) (y + 0) (z + 1)) v'"
    by (rule avg_nest[where dx = 0 and dy = 0 and dz = 1, OF _ _ _ assms])
       (auto simp: box3_def rng2 rng1 inr_def Let_def)
  then show ?thesis
    unfolding im interpolate_z_def avg_z_def[abs_def] by simp
qed

lemma written_wfv: "wfv v0 \<Longrightarrow> written v0 D G v \<Longrightarrow> wfv v"
  using wfv_same_extent[of v v0] by (simp add: written_def)

lemma written_dims:
  assumes "written v0 D G v"
  shows "dimX v = dimX v0" "dimY v = dimY v0" "dimZ v = dimZ v0" "inr v = inr v0"
  using assms inr_same_extent[of v v0] by (simp_all add: written_def same_extent_def)

lemma pass_pts_cong:
  assumes "dimX v = dimX u" "dimY v = dimY u" "dimZ v = dimZ u"
  shows "xpass_pts v = xpass_pts u" "ypass_pts v = ypass_pts u" "zpass_pts v = zpass_pts u"
    "inj_pts v = inj_pts u"
  using assms by (simp_all add: xpass_pts_def ypass_pts_def zpass_pts_def inj_pts_def)

lemma interpolate_field_chain:
  assumes "wfv coarse" "wfv fine"
    and "dimX fine \<le> 2 * dimX coarse + 1" "dimY fine \<le> 2 * dimY coarse + 1"
      "dimZ fine \<le> 2 * dimZ coarse + 1"
  shows "\<exists>f1 f2 f3 f4. interpolate_field coarse fine = Some f4 \<and> interp_chain coarse fine f1 f2 f3 f4"
proof -
  obtain f1 where 1: "interpolate_prepare coarse fine = Some f1"
    "written fine (inj_pts fine) (\<lambda>x y z. cell coarse (x div 2) (y div 2) (z div 2)) f1"
    using prepare_written[OF assms] by blast
  have w1: "wfv f1" using written_wfv[OF assms(2) 1(2)] .
  obtain f2 where 2: "interpolate_x f1 = Some f2" "written f1 (xpass_pts f1) (avg_x f1) f2"
    using xpass_written[OF w1] by blast
  have w2: "wfv f2" using written_wfv[OF w1 2(2)] .
  obtain f3 where 3: "interpolate_y f2 = Some f3" "written f2 (ypass_pts f2) (avg_y f2) f3"
    using ypass_written[OF w2] by blast
  have w3: "wfv f3" using written_wfv[OF w2 3(2)] .
  obtain f4 where 4: "interpolate_z f3 = Some f4" "written f3 (zpass_pts f3) (avg_z f3) f4"
    using zpass_written[OF w3] by blast
  note d1 = written_dims(1-3)[OF 1(2)]
  note d2 = written_dims(1-3)[OF 2(2)]
  note d3 = written_dims(1-3)[OF 3(2)]
  have "xpass_pts f1 = xpass_pts fine" "ypass_pts f2 = ypass_pts fine" "zpass_pts f3 = zpass_pts fine"
    using d1 d2 d3 by (simp_all add: xpass_pts_def ypass_pts_def zpass_pts_def)
  then have "interp_chain coarse fine f1 f2 f3 f4"
    using 1(2) 2(2) 3(2) 4(2) by (simp add: interp_chain_def)
  moreover have "interpolate_field coarse fine = Some f4"
    by (simp add: interpolate_field_def 1(1) 2(1) 3(1) 4(1))
  ultimately show ?thesis by blast
qed


lemma chain_dims:
  assumes "interp_chain coarse f0 f1 f2 f3 f4"
  shows "inr f1 = inr f0" "inr f2 = inr f0" "inr f3 = inr f0" "inr f4 = inr f0"
    "same_extent f4 f0"
proof -
  have w: "written f0 (inj_pts f0) (\<lambda>x y z. cell coarse (x div 2) (y div 2) (z div 2)) f1"
    "written f1 (xpass_pts f0) (avg_x f1) f2" "written f2 (ypass_pts f0) (avg_y f2) f3"
    "written f3 (zpass_pts f0) (avg_z f3) f4"
    using assms by (simp_all add: interp_chain_def)
  show 1: "inr f1 = inr f0" using written_dims(4)[OF w(1)] .
  show 2: "inr f2 = inr f0" using written_dims(4)[OF w(2)] 1 by simp
  show 3: "inr f3 = inr f0" using written_dims(4)[OF w(3)] 2 by simp
  show "inr f4 = inr f0" using written_dims(4)[OF w(4)] 3 by simp
  show "same_extent f4 f0" using w by (simp add: written_def same_extent_def)
qed

lemma chain_cells:
  assumes "interp_chain coarse f0 f1 f2 f3 f4" "inr f0 x y z"
  shows "cell f1 x y z = (if (x, y, z) \<in> inj_pts f0 then cell coarse (x div 2) (y div 2) (z div 2) else cell f0 x y z)"
    "cell f2 x y z = (if (x, y, z) \<in> xpass_pts f0 then avg_x f1 x y z else cell f1 x y z)"
    "cell f3 x y z = (if (x, y, z) \<in> ypass_pts f0 then avg_y f2 x y z else cell f2 x y z)"
    "cell f4 x y z = (if (x, y, z) \<in> zpass_pts f0 then avg_z f3 x y z else cell f3 x y z)"
  using assms chain_dims(1-3)[OF assms(1)] by (simp_all add: interp_chain_def written_def)


lemma interpolate_unfold:
  assumes "getLevel grid (level + 1) = Some Lc" "getLevel grid level = Some Lf"
    and "interpolate_field (level_v Lc) (level_e Lf) = Some e'"
  shows "interpolate grid level = Some (putLevel grid level (Lf\<lparr>level_e := e'\<rparr>))"
  using assms by (simp add: interpolate_def)

lemma Vector3_new_const: "wfv (Vector3_new a b d) \<Longrightarrow> Vector3_new a b d = const_field a b d 0"
  by (simp add: wfv_def Vector3_new_def const_field_def)





section \<open>Stencil application, fill, sum and difference\<close>

lemma applyStencil_nest:
  assumes pv: "padded L vin" and pr: "padded L (level_r L)"
    and st: "stencil_ok (stencil grid)"
  shows "\<exists>r'.
       for_loop 1 1 (int (levelDimX L) + 1) (\<lambda>x.
         for_loop 1 1 (int (levelDimY L) + 1) (\<lambda>y.
           for_loop 1 1 (int (levelDimZ L) + 1) (\<lambda>z.
             applyStencil_point grid vin x y z)))
         L = Some (L\<lparr>level_r := r'\<rparr>)
       \<and> written (level_r L) (level_pts L) (apply_val grid L vin) r'"
proof -
  let ?G = "apply_val grid L vin"
  let ?R = "\<lambda>D L'. \<exists>r'. L' = L\<lparr>level_r := r'\<rparr> \<and> written (level_r L) D ?G r'"
  have wv: "wfv vin" and wr: "wfv (level_r L)"
    using pv pr by (simp_all add: padded_def)
  have "\<exists>s'. for_loop 1 1 (int (levelDimX L) + 1) (\<lambda>x.
         for_loop 1 1 (int (levelDimY L) + 1) (\<lambda>y.
           for_loop 1 1 (int (levelDimZ L) + 1) (\<lambda>z.
             applyStencil_point grid vin x y z)))
         L = Some s'
       \<and> ?R (box3 (rng 1 1 (int (levelDimX L) + 1)) (rng 1 1 (int (levelDimY L) + 1))
                  (rng 1 1 (int (levelDimZ L) + 1))) s'"
  proof (rule nest3_rule[where R = ?R])
    show "?R {} L"
      using written_init[of "level_r L" ?G] by (auto intro!: exI[of _ "level_r L"])
  next
    fix D x y z s
    assume a: "?R D s"
      "(x, y, z) \<in> box3 (rng 1 1 (int (levelDimX L) + 1)) (rng 1 1 (int (levelDimY L) + 1))
                  (rng 1 1 (int (levelDimZ L) + 1))"
    from a(1) obtain r' where r': "s = L\<lparr>level_r := r'\<rparr>" "written (level_r L) D ?G r'"
      by auto
    have p: "(x, y, z) \<in> level_pts L" using a(2) by (simp add: level_box)
    have i: "interior vin x y z" using padded_pts[OF pv p] by simp
    have s1: "stencil_sum (stencil grid) vin x y z = Some (stencil_apply (stencil grid) vin x y z)"
      using i by (intro stencil_sum_eq wv st) (simp_all add: interior_def)
    have g1: "Vector3_get vin x y z = Some (cell vin x y z)"
      using padded_pts(1)[OF pv p] by (rule get_inr[OF wv])
    obtain r'' where r'': "Vector3_set r' x y z (?G x y z) = Some r''"
       "written (level_r L) (insert (x, y, z) D) ?G r''"
      using written_set[OF wr r'(2) padded_pts(1)[OF pr p] refl] by blast
    have "applyStencil_point grid vin x y z s = Vector3_set r' x y z (?G x y z) \<bind> (\<lambda>r''. Some (L\<lparr>level_r := r''\<rparr>))"
      using s1 g1 by (simp add: applyStencil_point_def r'(1) apply_val_def Let_def)
    then have "applyStencil_point grid vin x y z s = Some (L\<lparr>level_r := r''\<rparr>)"
      using r''(1) by simp
    then show "\<exists>s'. applyStencil_point grid vin x y z s = Some s' \<and> ?R (insert (x, y, z) D) s'"
      using r''(2) by blast
  qed simp_all
  then show ?thesis
    unfolding level_box by auto
qed

lemma padded_length: "padded L u \<Longrightarrow> length (vals u) = (levelDimX L + 2) * (levelDimY L + 2) * (levelDimZ L + 2)"
  by (simp add: padded_def wfv_def)

lemma applyStencil_spec:
  assumes "getLevel grid n = Some L"
    and "padded L vin" "padded L (level_v L)" "padded L (level_r L)"
    and "stencil_ok (stencil grid)"
  shows "\<exists>r'. applyStencil grid n vin = Some (putLevel grid n (L\<lparr>level_r := r'\<rparr>))
          \<and> written (level_r L) (level_pts L) (apply_val grid L vin) r'"
proof -
  obtain r' where nest: "for_loop 1 1 (int (levelDimX L) + 1) (\<lambda>x.
         for_loop 1 1 (int (levelDimY L) + 1) (\<lambda>y.
           for_loop 1 1 (int (levelDimZ L) + 1) (\<lambda>z.
             applyStencil_point grid vin x y z)))
         L = Some (L\<lparr>level_r := r'\<rparr>)"
    and w: "written (level_r L) (level_pts L) (apply_val grid L vin) r'"
    using applyStencil_nest[OF assms(2,4,5)] by blast
  have "flatSize (level_v L) = flatSize vin"
    using padded_length[OF assms(2)] padded_length[OF assms(3)] by (simp add: flatSize_def)
  then have "applyStencil grid n vin = Some (putLevel grid n (L\<lparr>level_r := r'\<rparr>))"
    by (simp add: applyStencil_def assms(1) nest)
  with w show ?thesis by blast
qed

lemma same_extent_flat: "same_extent a b \<Longrightarrow> flat_index a = flat_index b"
  by (simp add: same_extent_def flat_index_def fun_eq_iff)

lemma same_extent_interior: "same_extent a b \<Longrightarrow> interior a = interior b"
  by (simp add: same_extent_def interior_def fun_eq_iff)

lemma same_extent_sym: "same_extent a b \<Longrightarrow> same_extent b a"
  by (simp add: same_extent_def)

lemma same_extent_trans: "same_extent a b \<Longrightarrow> same_extent b c \<Longrightarrow> same_extent a c"
  by (simp add: same_extent_def)

lemma same_extent_padded: "same_extent a b \<Longrightarrow> padded L a = padded L b"
  using wfv_same_extent[of a b] by (auto simp: padded_def same_extent_def)

lemma padded_same_extent: "padded L a \<Longrightarrow> padded L b \<Longrightarrow> same_extent a b"
  by (simp add: padded_def same_extent_def wfv_def)

lemma fill_props:
  "same_extent (Vector3_fill u a) u"
  "wfv u \<Longrightarrow> inr u x y z \<Longrightarrow> cell (Vector3_fill u a) x y z = a"
proof -
  show se: "same_extent (Vector3_fill u a) u" by (simp add: Vector3_fill_def same_extent_def)
  assume "wfv u" "inr u x y z"
  then have "nat (flat_index u x y z) < length (vals u)"
    using flat_index_lt[of u x y z] by linarith
  then show "cell (Vector3_fill u a) x y z = a"
    unfolding cell_def same_extent_flat[OF se] by (simp add: Vector3_fill_def)
qed

lemma add_props:
  assumes "same_extent u w"
  shows "\<exists>s. Vector3_add u w = Some s \<and> same_extent s u
           \<and> (wfv u \<longrightarrow> (\<forall>x y z. inr u x y z \<longrightarrow> cell s x y z = cell u x y z + cell w x y z))"
proof -
  let ?s = "u\<lparr>vals := map2 (+) (vals u) (vals w)\<rparr>"
  have len: "length (vals u) = length (vals w)" using assms by (simp add: same_extent_def)
  have se: "same_extent ?s u" using len by (simp add: same_extent_def)
  have "cell ?s x y z = cell u x y z + cell w x y z" if "wfv u" "inr u x y z" for x y z
  proof -
    have "nat (flat_index u x y z) < length (vals u)"
      using flat_index_lt[OF that] by linarith
    then show ?thesis
      unfolding cell_def same_extent_flat[OF se] same_extent_flat[OF assms, symmetric]
      using len by simp
  qed
  then show ?thesis using assms se by (simp add: Vector3_add_def)
qed

lemma sub_props:
  assumes "same_extent u w"
  shows "\<exists>s. Vector3_sub u w = Some s \<and> same_extent s u
           \<and> (wfv u \<longrightarrow> (\<forall>x y z. inr u x y z \<longrightarrow> cell s x y z = cell u x y z - cell w x y z))"
proof -
  let ?s = "u\<lparr>vals := map2 (-) (vals u) (vals w)\<rparr>"
  have len: "length (vals u) = length (vals w)" using assms by (simp add: same_extent_def)
  have se: "same_extent ?s u" using len by (simp add: same_extent_def)
  have "cell ?s x y z = cell u x y z - cell w x y z" if "wfv u" "inr u x y z" for x y z
  proof -
    have "nat (flat_index u x y z) < length (vals u)"
      using flat_index_lt[OF that] by linarith
    then show ?thesis
      unfolding cell_def same_extent_flat[OF se] same_extent_flat[OF assms, symmetric]
      using len by simp
  qed
  then show ?thesis using assms se by (simp add: Vector3_sub_def)
qed

section \<open>Zero halos\<close>

lemma halo0_frame:
  assumes "halo0 u" "frame_eq D u u'" "\<And>x y z. (x, y, z) \<in> D \<Longrightarrow> interior u x y z"
  shows "halo0 u'"
proof -
  have se: "same_extent u' u" using assms(2) by (simp add: frame_eq_def)
  have "cell u' x y z = 0" if "inr u' x y z" "\<not> interior u' x y z" for x y z
  proof -
    have i: "inr u x y z" "\<not> interior u x y z"
      using that inr_same_extent[OF se] same_extent_interior[OF se] by simp_all
    then have "(x, y, z) \<notin> D" using assms(3) by blast
    then have "cell u' x y z = cell u x y z" using assms(2) i(1) by (simp add: frame_eq_def)
    then show ?thesis using assms(1) i by (simp add: halo0_def)
  qed
  then show ?thesis by (simp add: halo0_def)
qed

lemma halo0_written_pts:
  assumes "padded L u" "halo0 u" "written u (level_pts L) G u'"
  shows "halo0 u'"
  using halo0_frame[OF assms(2) written_frame_eq[OF assms(3)]] padded_interior[OF assms(1)] by blast

lemma halo0_fill: "wfv u \<Longrightarrow> halo0 (Vector3_fill u 0)"
  using fill_props(2)[where u = u and a = 0] inr_same_extent[OF fill_props(1)[where u = u and a = 0]]
  by (simp add: halo0_def)

lemma halo0_combine:
  assumes "same_extent s u" "same_extent u w" "wfv u" "halo0 u" "halo0 w"
    and "\<And>x y z. inr u x y z \<Longrightarrow> cell s x y z = cell u x y z + cell w x y z
                               \<or> cell s x y z = cell u x y z - cell w x y z"
  shows "halo0 s"
proof -
  have "cell s x y z = 0" if "inr s x y z" "\<not> interior s x y z" for x y z
  proof -
    have i: "inr u x y z" "\<not> interior u x y z"
      using that inr_same_extent[OF assms(1)] same_extent_interior[OF assms(1)] by simp_all
    then have j: "inr w x y z" "\<not> interior w x y z"
      using inr_same_extent[OF assms(2)] same_extent_interior[OF assms(2)] by simp_all
    have "cell u x y z = 0" "cell w x y z = 0"
      using assms(4,5) i j by (simp_all add: halo0_def)
    then show ?thesis using assms(6)[OF i(1)] by auto
  qed
  then show ?thesis by (simp add: halo0_def)
qed

lemma halo0_interp:
  assumes ch: "interp_chain coarse f0 f1 f2 f3 f4"
    and wc: "wfv coarse"
    and dims: "dimX f0 \<le> 2 * dimX coarse + 1" "dimY f0 \<le> 2 * dimY coarse + 1"
      "dimZ f0 \<le> 2 * dimZ coarse + 1"
    and h: "halo0 coarse" "halo0 f0"
  shows "halo0 f4"
proof -
  have ni: "\<not> interior f0 x y z \<longleftrightarrow> x < 1 \<or> int (dimX f0) - 1 \<le> x \<or> y < 1 \<or> int (dimY f0) - 1 \<le> y
              \<or> z < 1 \<or> int (dimZ f0) - 1 \<le> z" for x y z
    by (auto simp: interior_def)
  have s1: "cell f1 x y z = 0" if i: "inr f0 x y z" and n: "\<not> interior f0 x y z" for x y z
  proof (cases "(x, y, z) \<in> inj_pts f0")
    case True
    then have "inr coarse (x div 2) (y div 2) (z div 2)"
      using dims unfolding inj_pts_def inr_def by auto
    moreover have "\<not> interior coarse (x div 2) (y div 2) (z div 2)"
      using True n unfolding ni inj_pts_def interior_def by auto
    ultimately have "cell coarse (x div 2) (y div 2) (z div 2) = 0"
      using h(1) by (simp add: halo0_def)
    then show ?thesis using chain_cells(1)[OF ch i] True by simp
  next
    case False
    then show ?thesis using chain_cells(1)[OF ch i] h(2) i n by (simp add: halo0_def)
  qed
  have s2: "cell f2 x y z = 0" if i: "inr f0 x y z" and n: "\<not> interior f0 x y z" for x y z
  proof (cases "(x, y, z) \<in> xpass_pts f0")
    case True
    then have "inr f0 (x - 1) y z" "inr f0 (x + 1) y z" "\<not> interior f0 (x - 1) y z" "\<not> interior f0 (x + 1) y z"
      using i n unfolding ni xpass_pts_def inr_def by auto
    then show ?thesis using chain_cells(2)[OF ch i] True s1 by (simp add: avg_x_def)
  next
    case False
    then show ?thesis using chain_cells(2)[OF ch i] s1[OF i n] by simp
  qed
  have s3: "cell f3 x y z = 0" if i: "inr f0 x y z" and n: "\<not> interior f0 x y z" for x y z
  proof (cases "(x, y, z) \<in> ypass_pts f0")
    case True
    then have "inr f0 x (y - 1) z" "inr f0 x (y + 1) z" "\<not> interior f0 x (y - 1) z" "\<not> interior f0 x (y + 1) z"
      using i n unfolding ni ypass_pts_def inr_def by auto
    then show ?thesis using chain_cells(3)[OF ch i] True s2 by (simp add: avg_y_def)
  next
    case False
    then show ?thesis using chain_cells(3)[OF ch i] s2[OF i n] by simp
  qed
  have s4: "cell f4 x y z = 0" if i: "inr f0 x y z" and n: "\<not> interior f0 x y z" for x y z
  proof (cases "(x, y, z) \<in> zpass_pts f0")
    case True
    then have "inr f0 x y (z - 1)" "inr f0 x y (z + 1)" "\<not> interior f0 x y (z - 1)" "\<not> interior f0 x y (z + 1)"
      using i n unfolding ni zpass_pts_def inr_def by auto
    then show ?thesis using chain_cells(4)[OF ch i] True s3 by (simp add: avg_z_def)
  next
    case False
    then show ?thesis using chain_cells(4)[OF ch i] s3[OF i n] by simp
  qed
  show ?thesis
    using s4 chain_dims(4,5)[OF ch] same_extent_interior[of f4 f0] by (simp add: halo0_def)
qed

section \<open>Which cells the kernels write\<close>

lemma frame_eq_mono: "frame_eq D u u' \<Longrightarrow> D \<subseteq> D' \<Longrightarrow> frame_eq D' u u'"
  by (auto simp: frame_eq_def)

lemma frame_pts_interior: "padded L u \<Longrightarrow> frame_eq (level_pts L) u u' \<Longrightarrow> frame_eq {(x, y, z). interior u x y z} u u'"
  using padded_interior[of L u] by (auto simp: frame_eq_def)

text \<open>
  C7 as stated fails for \<open>interpolate\<close>: its injection pass starts at index 0 and
  sets the halo cell \<open>(0, 0, 0)\<close> of \<open>e\<close> from the coarse cell \<open>(0, 0, 0)\<close>. On the
  test hierarchy, where that cell of \<open>e\<close> holds 1 and the coarse \<open>v\<close> is zero, the
  cell holds 0 afterwards.
\<close>

theorem interpolate_writes_halo_counterexample:
  "interpolate gridH 0 \<noteq> None
   \<and> inr (level_e (levels gridH ! 0)) 0 0 0
   \<and> \<not> interior (level_e (levels gridH ! 0)) 0 0 0
   \<and> cell (level_e (levels gridH ! 0)) 0 0 0 = 1
   \<and> cell (level_e (levels (the (interpolate gridH 0)) ! 0)) 0 0 0 = 0"
proof -
  let ?c = "Vector3_new 3 3 3" and ?f = "const_field 5 5 5 1"
  let ?L0 = "(zero_level 3 (1 / 4))\<lparr>level_e := ?f\<rparr>"
  have g1: "getLevel gridH (0 + 1) = Some (zero_level 1 (1 / 2))" and g0: "getLevel gridH 0 = Some ?L0"
    by (simp_all add: getLevel_def gridH_def)
  have v1: "level_v (zero_level 1 (1 / 2)) = ?c" by (simp add: zero_level_def numeral_3_eq_3)
  have wc: "wfv ?c" by (simp add: wfv_new)
  have wf: "wfv ?f" by (simp add: wfv_const_field)
  have ce: "?c = const_field 3 3 3 0" using wc by (rule Vector3_new_const)
  obtain f1 f2 f3 f4 where i: "interpolate_field ?c ?f = Some f4" and ch: "interp_chain ?c ?f f1 f2 f3 f4"
    using interpolate_field_chain[OF wc wf] by (auto simp: const_field_def Vector3_new_def)
  have r: "interpolate gridH 0 = Some (putLevel gridH 0 (?L0\<lparr>level_e := f4\<rparr>))"
    using interpolate_unfold[OF g1 g0, unfolded v1] i by simp
  have d: "dimX ?f = 5" "dimY ?f = 5" "dimZ ?f = 5" by (simp_all add: const_field_def)
  have in0: "inr ?f 0 0 0" by (simp add: inr_def d)
  have "inr (const_field 3 3 3 0) 0 0 0" by (simp add: inr_def const_field_def)
  then have "cell ?c 0 0 0 = 0"
    using const_field_cell[of 3 3 3 0 0 0 0] wc unfolding ce by simp
  then have "cell f4 0 0 0 = 0"
    using chain_cells[OF ch in0] by (simp add: zpass_pts_def ypass_pts_def xpass_pts_def inj_pts_def d)
  moreover have "level_e (levels (the (interpolate gridH 0)) ! 0) = f4"
    unfolding r by (simp add: putLevel_def gridH_def)
  moreover have "level_e (levels gridH ! 0) = ?f" by (simp add: gridH_def)
  moreover have "cell ?f 0 0 0 = 1" using const_field_cell[OF wf in0] .
  moreover have "\<not> interior ?f 0 0 0" by (simp add: interior_def)
  ultimately show ?thesis using r in0 by simp
qed

text \<open>
  C7, amended. On a level with padded fields, a usable non-empty stencil and thread
  numbers below 16, \<open>compResidual\<close>, \<open>jacobi\<close>, \<open>applyStencil\<close> and \<open>restrict\<close> return and
  leave every halo cell of the field they write as it was, whatever it held: the
  field after the call differs from the field before at most on interior cells, and
  no other field changes. \<open>interpolate\<close> does set halo cells of \<open>e\<close>; when the halo
  cells of the coarser \<open>v\<close> and of \<open>e\<close> are zero, every halo cell of \<open>e\<close> is zero
  afterwards.
\<close>

theorem kernels_halo_writes:
  assumes "getLevel grid n = Some L"
    and "padded L (level_v L)" "padded L (level_f L)" "padded L (level_r L)" "padded L (level_e L)"
    and "stencil_ok (stencil grid)" "stencil_values (stencil grid) \<noteq> []"
    and "\<forall>x. 1 \<le> x \<and> x \<le> int (levelDimX L) \<longrightarrow> thr x < 16"
  shows "(\<exists>res r'. compResidual thr grid n = Some (res, putLevel grid n (L\<lparr>level_r := r'\<rparr>))
            \<and> frame_eq {(x, y, z). interior (level_r L) x y z} (level_r L) r')
    \<and> (\<exists>r' v'. jacobi thr grid n k = Some (putLevel grid n (L\<lparr>level_r := r', level_v := v'\<rparr>))
            \<and> frame_eq {(x, y, z). interior (level_r L) x y z} (level_r L) r'
            \<and> frame_eq {(x, y, z). interior (level_v L) x y z} (level_v L) v')
    \<and> (\<forall>vin. padded L vin \<longrightarrow>
          (\<exists>r'. applyStencil grid n vin = Some (putLevel grid n (L\<lparr>level_r := r'\<rparr>))
            \<and> frame_eq {(x, y, z). interior (level_r L) x y z} (level_r L) r'))
    \<and> (\<forall>fine coarse. wfv fine \<and> wfv coarse \<and> 2 * dimX coarse \<le> dimX fine + 2
            \<and> 2 * dimY coarse \<le> dimY fine + 2 \<and> 2 * dimZ coarse \<le> dimZ fine + 2 \<longrightarrow>
          (\<exists>c'. restrict fine coarse = Some c' \<and> frame_eq {(x, y, z). interior coarse x y z} coarse c'))
    \<and> (\<forall>Lc. getLevel grid (n + 1) = Some Lc \<and> wfv (level_v Lc)
            \<and> dimX (level_e L) \<le> 2 * dimX (level_v Lc) + 1 \<and> dimY (level_e L) \<le> 2 * dimY (level_v Lc) + 1
            \<and> dimZ (level_e L) \<le> 2 * dimZ (level_v Lc) + 1
            \<and> halo0 (level_v Lc) \<and> halo0 (level_e L) \<longrightarrow>
          (\<exists>e'. interpolate grid n = Some (putLevel grid n (L\<lparr>level_e := e'\<rparr>))
            \<and> same_extent e' (level_e L) \<and> halo0 e'))"
proof -
  have th: "\<And>x. 1 \<le> x \<Longrightarrow> x \<le> int (levelDimX L) \<Longrightarrow> thr x < 16" using assms(8) by simp
  have c1: "\<exists>res r'. compResidual thr grid n = Some (res, putLevel grid n (L\<lparr>level_r := r'\<rparr>))
            \<and> frame_eq {(x, y, z). interior (level_r L) x y z} (level_r L) r'"
    using compResidual_spec[where thr = thr, OF assms(1-4,6) th]
      frame_pts_interior[OF assms(4) written_frame_eq] by blast
  have c2: "\<exists>r' v'. jacobi thr grid n k = Some (putLevel grid n (L\<lparr>level_r := r', level_v := v'\<rparr>))
            \<and> frame_eq {(x, y, z). interior (level_r L) x y z} (level_r L) r'
            \<and> frame_eq {(x, y, z). interior (level_v L) x y z} (level_v L) v'"
    using jacobi_total[where thr = thr and k = k, OF assms(1-4,6,7) th]
      frame_pts_interior[OF assms(4)] frame_pts_interior[OF assms(2)] by blast
  have c3: "\<exists>r'. applyStencil grid n vin = Some (putLevel grid n (L\<lparr>level_r := r'\<rparr>))
            \<and> frame_eq {(x, y, z). interior (level_r L) x y z} (level_r L) r'" if "padded L vin" for vin
    using applyStencil_spec[OF assms(1) that assms(2,4,6)]
      frame_pts_interior[OF assms(4) written_frame_eq] by blast
  have c4: "\<exists>c'. restrict fine coarse = Some c' \<and> frame_eq {(x, y, z). interior coarse x y z} coarse c'"
    if "wfv fine \<and> wfv coarse \<and> 2 * dimX coarse \<le> dimX fine + 2
            \<and> 2 * dimY coarse \<le> dimY fine + 2 \<and> 2 * dimZ coarse \<le> dimZ fine + 2" for fine coarse
    using restrict_written[of fine coarse] that written_frame_eq by blast
  have c5: "\<exists>e'. interpolate grid n = Some (putLevel grid n (L\<lparr>level_e := e'\<rparr>))
            \<and> same_extent e' (level_e L) \<and> halo0 e'"
    if a: "getLevel grid (n + 1) = Some Lc \<and> wfv (level_v Lc)
            \<and> dimX (level_e L) \<le> 2 * dimX (level_v Lc) + 1 \<and> dimY (level_e L) \<le> 2 * dimY (level_v Lc) + 1
            \<and> dimZ (level_e L) \<le> 2 * dimZ (level_v Lc) + 1
            \<and> halo0 (level_v Lc) \<and> halo0 (level_e L)" for Lc
  proof -
    have we: "wfv (level_e L)" using assms(5) by (simp add: padded_def)
    obtain f1 f2 f3 f4 where i: "interpolate_field (level_v Lc) (level_e L) = Some f4"
      and ch: "interp_chain (level_v Lc) (level_e L) f1 f2 f3 f4"
      using interpolate_field_chain[of "level_v Lc" "level_e L"] a we by blast
    have "halo0 f4" using halo0_interp[OF ch] a by blast
    then show ?thesis
      using interpolate_unfold[OF _ assms(1) i] a chain_dims(5)[OF ch] by blast
  qed
  show ?thesis
    using c1 c2 c3 c4 c5 by blast
qed

theorem kernels_halo_writes_witness:
  "\<exists>res r'. compResidual (\<lambda>x. 0) grid1 0 = Some (res, putLevel grid1 0 (level1\<lparr>level_r := r'\<rparr>))
       \<and> cell r' 0 0 0 = cell (level_r level1) 0 0 0 \<and> cell r' 2 1 1 = cell (level_r level1) 2 1 1"
proof -
  have gl: "getLevel grid1 0 = Some level1" by (simp add: getLevel_def grid1_def)
  have st: "stencil_ok (stencil grid1)" "stencil_values (stencil grid1) \<noteq> []"
    by (simp_all add: grid1_params laplace7_ok) (simp add: laplace7_def)
  have th: "\<forall>x. 1 \<le> x \<and> x \<le> int (levelDimX level1) \<longrightarrow> (\<lambda>x. 0::nat) x < 16" by simp
  from kernels_halo_writes[OF gl level1_padded(1-4) st th, of 0]
  obtain res r' where c: "compResidual (\<lambda>x. 0) grid1 0 = Some (res, putLevel grid1 0 (level1\<lparr>level_r := r'\<rparr>))"
    and f: "frame_eq {(x, y, z). interior (level_r level1) x y z} (level_r level1) r'"
    by blast
  have d: "level_r level1 = Vector3_new 3 3 3" by (simp add: level1_def)
  have "inr (level_r level1) 0 0 0" "\<not> interior (level_r level1) 0 0 0"
    "inr (level_r level1) 2 1 1" "\<not> interior (level_r level1) 2 1 1"
    by (simp_all add: d inr_def interior_def Vector3_new_def)
  then have "cell r' 0 0 0 = cell (level_r level1) 0 0 0" "cell r' 2 1 1 = cell (level_r level1) 2 1 1"
    using f by (simp_all add: frame_eq_def)
  with c show ?thesis by blast
qed

section \<open>Well-formed hierarchies are kept by every operation\<close>

lemma same_params_refl: "same_params g g"
  by (simp add: same_params_def)

lemma same_params_trans: "same_params g g1 \<Longrightarrow> same_params g1 g2 \<Longrightarrow> same_params g g2"
  by (simp add: same_params_def)

lemma same_params_put: "same_params g (putLevel g n L)"
  by (simp add: same_params_def)

lemma grid_ok_level:
  assumes "grid_ok thr hal g" "n < length (levels g)"
  shows "wf_level (isLinear g) (levels g ! n)" "hal \<Longrightarrow> halo_level (levels g ! n)"
    "getLevel g n = Some (levels g ! n)"
  using assms by (auto simp: grid_ok_def wf_grid_def halo_grid_def getLevel_def)

lemma grid_ok_put:
  assumes "grid_ok thr hal g" "n < length (levels g)"
    and "same_dims (levels g ! n) L'" "wf_level (isLinear g) L'" "hal \<longrightarrow> halo_level L'"
  shows "grid_ok thr hal (putLevel g n L')"
proof -
  let ?ls = "(levels g)[n := L']"
  have sub: "set ?ls \<subseteq> insert L' (set (levels g))" by (rule set_update_subset_insert)
  have wf: "wf_grid thr g" using assms(1) by (simp add: grid_ok_def)
  have 1: "\<forall>L \<in> set ?ls. wf_level (isLinear g) L"
    using sub wf assms(4) by (auto simp: wf_grid_def)
  have 2: "coarsens (?ls ! i) (?ls ! Suc i)" if "Suc i < length (levels g)" for i
  proof -
    have c: "coarsens (levels g ! i) (levels g ! Suc i)" using wf that by (simp add: wf_grid_def)
    show ?thesis
      using c assms(2,3) that
      by (cases "i = n"; cases "Suc i = n") (auto simp: coarsens_def same_dims_def)
  qed
  have 3: "hal \<longrightarrow> (\<forall>L \<in> set ?ls. halo_level L)"
    using sub assms(1,5) by (auto simp: grid_ok_def halo_grid_def)
  show ?thesis
    using wf 1 2 3 by (simp add: grid_ok_def wf_grid_def halo_grid_def putLevel_def)
qed

lemma grid_ok_thr: "grid_ok thr hal g \<Longrightarrow> thr x < 16"
  by (simp add: grid_ok_def wf_grid_def)

lemma grid_ok_stencil: "grid_ok thr hal g \<Longrightarrow> stencil_ok (stencil g) \<and> stencil_values (stencil g) \<noteq> []"
  by (simp add: grid_ok_def wf_grid_def)

lemma halo0_frame_pts:
  assumes "padded L u" "halo0 u" "frame_eq (level_pts L) u u'"
  shows "halo0 u'"
  using halo0_frame[OF assms(2,3)] padded_interior[OF assms(1)] by blast

lemma ok_compResidual:
  assumes "grid_ok thr hal g" "n < length (levels g)"
  shows "\<exists>res r'. compResidual thr g n = Some (res, putLevel g n ((levels g ! n)\<lparr>level_r := r'\<rparr>))
          \<and> written (level_r (levels g ! n)) (level_pts (levels g ! n)) (resid_val g (levels g ! n)) r'
          \<and> grid_ok thr hal (putLevel g n ((levels g ! n)\<lparr>level_r := r'\<rparr>))"
proof -
  let ?L = "levels g ! n"
  note l = grid_ok_level[OF assms]
  have p: "padded ?L (level_v ?L)" "padded ?L (level_f ?L)" "padded ?L (level_r ?L)"
    using l(1) by (simp_all add: wf_level_def)
  obtain r' where c: "compResidual thr g n
            = Some (sqrt (\<Sum>(x, y, z)\<in>level_pts ?L. (resid_val g ?L x y z)\<^sup>2), putLevel g n (?L\<lparr>level_r := r'\<rparr>))"
    and w: "written (level_r ?L) (level_pts ?L) (resid_val g ?L) r'"
    using compResidual_spec[where thr = thr, OF l(3) p] grid_ok_stencil[OF assms(1)] grid_ok_thr[OF assms(1)]
    by blast
  have "wf_level (isLinear g) (?L\<lparr>level_r := r'\<rparr>)"
    using l(1) written_padded[OF p(3) w] by (simp add: wf_level_def padded_def)
  moreover have "hal \<longrightarrow> halo_level (?L\<lparr>level_r := r'\<rparr>)"
    using l(2) halo0_written_pts[OF p(3) _ w] by (auto simp: halo_level_def)
  ultimately have "grid_ok thr hal (putLevel g n (?L\<lparr>level_r := r'\<rparr>))"
    by (intro grid_ok_put assms) (simp_all add: same_dims_def)
  with c w show ?thesis by blast
qed

lemma ok_jacobi:
  assumes "grid_ok thr hal g" "n < length (levels g)"
  shows "\<exists>r' v'. jacobi thr g n k = Some (putLevel g n ((levels g ! n)\<lparr>level_r := r', level_v := v'\<rparr>))
          \<and> grid_ok thr hal (putLevel g n ((levels g ! n)\<lparr>level_r := r', level_v := v'\<rparr>))"
proof -
  let ?L = "levels g ! n"
  note l = grid_ok_level[OF assms]
  have p: "padded ?L (level_v ?L)" "padded ?L (level_f ?L)" "padded ?L (level_r ?L)"
    using l(1) by (simp_all add: wf_level_def)
  obtain r' v' where j: "jacobi thr g n k = Some (putLevel g n (?L\<lparr>level_r := r', level_v := v'\<rparr>))"
    and f: "frame_eq (level_pts ?L) (level_r ?L) r'" "frame_eq (level_pts ?L) (level_v ?L) v'"
    using jacobi_total[where thr = thr and k = k, OF l(3) p] grid_ok_stencil[OF assms(1)] grid_ok_thr[OF assms(1)]
    by blast
  have "wf_level (isLinear g) (?L\<lparr>level_r := r', level_v := v'\<rparr>)"
    using l(1) frame_eq_padded[OF p(3) f(1)] frame_eq_padded[OF p(1) f(2)]
    by (simp add: wf_level_def padded_def)
  moreover have "hal \<longrightarrow> halo_level (?L\<lparr>level_r := r', level_v := v'\<rparr>)"
    using l(2) halo0_frame_pts[OF p(3) _ f(1)] halo0_frame_pts[OF p(1) _ f(2)]
    by (auto simp: halo_level_def)
  ultimately have "grid_ok thr hal (putLevel g n (?L\<lparr>level_r := r', level_v := v'\<rparr>))"
    by (intro grid_ok_put assms) (simp_all add: same_dims_def)
  with j show ?thesis by blast
qed

lemma ok_applyStencil:
  assumes "grid_ok thr hal g" "n < length (levels g)" "padded (levels g ! n) vin"
  shows "\<exists>r'. applyStencil g n vin = Some (putLevel g n ((levels g ! n)\<lparr>level_r := r'\<rparr>))
          \<and> written (level_r (levels g ! n)) (level_pts (levels g ! n)) (apply_val g (levels g ! n) vin) r'
          \<and> grid_ok thr hal (putLevel g n ((levels g ! n)\<lparr>level_r := r'\<rparr>))"
proof -
  let ?L = "levels g ! n"
  note l = grid_ok_level[OF assms(1,2)]
  have p: "padded ?L (level_v ?L)" "padded ?L (level_r ?L)"
    using l(1) by (simp_all add: wf_level_def)
  obtain r' where c: "applyStencil g n vin = Some (putLevel g n (?L\<lparr>level_r := r'\<rparr>))"
    and w: "written (level_r ?L) (level_pts ?L) (apply_val g ?L vin) r'"
    using applyStencil_spec[OF l(3) assms(3) p] grid_ok_stencil[OF assms(1)] by blast
  have "wf_level (isLinear g) (?L\<lparr>level_r := r'\<rparr>)"
    using l(1) written_padded[OF p(2) w] by (simp add: wf_level_def padded_def)
  moreover have "hal \<longrightarrow> halo_level (?L\<lparr>level_r := r'\<rparr>)"
    using l(2) halo0_written_pts[OF p(2) _ w] by (auto simp: halo_level_def)
  ultimately have "grid_ok thr hal (putLevel g n (?L\<lparr>level_r := r'\<rparr>))"
    by (intro grid_ok_put assms) (simp_all add: same_dims_def)
  with c w show ?thesis by blast
qed

lemma coarsens_dims:
  assumes "coarsens Lf Lc" "padded Lf uf" "padded Lc uc"
  shows "2 * dimX uc \<le> dimX uf + 2" "2 * dimY uc \<le> dimY uf + 2" "2 * dimZ uc \<le> dimZ uf + 2"
    "dimX uf \<le> 2 * dimX uc + 1" "dimY uf \<le> 2 * dimY uc + 1" "dimZ uf \<le> 2 * dimZ uc + 1"
  using assms by (auto simp: coarsens_def padded_def)

lemma ok_restrict:
  assumes "coarsens Lf Lc" "padded Lf fine" "padded Lc coarse"
  shows "\<exists>c'. restrict fine coarse = Some c'
          \<and> written coarse {(x, y, z). interior coarse x y z} (restrict_sum fine) c'
          \<and> padded Lc c' \<and> (halo0 coarse \<longrightarrow> halo0 c')"
proof -
  have w: "wfv fine" "wfv coarse" using assms(2,3) by (simp_all add: padded_def)
  obtain c' where c: "restrict fine coarse = Some c'"
    and wr: "written coarse {(x, y, z). interior coarse x y z} (restrict_sum fine) c'"
    using restrict_written[OF w coarsens_dims(1-3)[OF assms]] by blast
  have "padded Lc c'" using written_padded[OF assms(3) wr] .
  moreover have "halo0 coarse \<longrightarrow> halo0 c'"
    using halo0_frame[OF _ written_frame_eq[OF wr]] by blast
  ultimately show ?thesis using c wr by blast
qed

lemma ok_interpolate:
  assumes "grid_ok thr hal g" "Suc n < length (levels g)"
  shows "\<exists>e'. interpolate g n = Some (putLevel g n ((levels g ! n)\<lparr>level_e := e'\<rparr>))
          \<and> interpolate_field (level_v (levels g ! Suc n)) (level_e (levels g ! n)) = Some e'
          \<and> grid_ok thr hal (putLevel g n ((levels g ! n)\<lparr>level_e := e'\<rparr>))"
proof -
  let ?Lf = "levels g ! n" and ?Lc = "levels g ! Suc n"
  have n: "n < length (levels g)" using assms(2) by simp
  note lf = grid_ok_level[OF assms(1) n]
  note lc = grid_ok_level[OF assms(1,2)]
  have co: "coarsens ?Lf ?Lc" using assms by (simp add: grid_ok_def wf_grid_def)
  have p: "padded ?Lf (level_e ?Lf)" "padded ?Lc (level_v ?Lc)"
    using lf(1) lc(1) by (simp_all add: wf_level_def)
  have w: "wfv (level_v ?Lc)" "wfv (level_e ?Lf)" using p by (simp_all add: padded_def)
  note d = coarsens_dims(4-6)[OF co p]
  obtain f1 f2 f3 f4 where i: "interpolate_field (level_v ?Lc) (level_e ?Lf) = Some f4"
    and ch: "interp_chain (level_v ?Lc) (level_e ?Lf) f1 f2 f3 f4"
    using interpolate_field_chain[OF w d] by blast
  have r: "interpolate g n = Some (putLevel g n (?Lf\<lparr>level_e := f4\<rparr>))"
    using interpolate_unfold[of g n ?Lc ?Lf f4] lc(3) lf(3) i by simp
  have "padded ?Lf f4"
    using same_extent_padded[OF chain_dims(5)[OF ch]] p(1) by simp
  then have "wf_level (isLinear g) (?Lf\<lparr>level_e := f4\<rparr>)"
    using lf(1) by (simp add: wf_level_def padded_def)
  moreover have "hal \<longrightarrow> halo_level (?Lf\<lparr>level_e := f4\<rparr>)"
    using lf(2) lc(2) halo0_interp[OF ch w(1) d] by (auto simp: halo_level_def)
  ultimately have "grid_ok thr hal (putLevel g n (?Lf\<lparr>level_e := f4\<rparr>))"
    by (intro grid_ok_put assms n) (simp_all add: same_dims_def)
  with r i show ?thesis by blast
qed

section \<open>The legs of the V-cycle\<close>

lemma vcycle_down_linear:
  assumes "jacobi thr g i (preSmoothing g) = Some g1" "getLevel g1 (Suc i) = Some X"
    and "compResidual thr g1 i = Some (res, g2)"
    and "getLevel g2 i = Some Li" "getLevel g2 (Suc i) = Some Ln"
    and "restrict (level_r Li) (level_f Ln) = Some f'" "isLinear g2"
  shows "vcycle_down thr i g
           = Some (putLevel g2 (Suc i) (Ln\<lparr>level_f := f', level_v := Vector3_fill (level_v Ln) 0\<rparr>))"
  using assms by (simp add: vcycle_down_def Let_def)

lemma vcycle_down_nonlinear:
  assumes "jacobi thr g i (preSmoothing g) = Some g1" "getLevel g1 (Suc i) = Some X"
    and "compResidual thr g1 i = Some (res, g2)"
    and "getLevel g2 i = Some Li" "getLevel g2 (Suc i) = Some Ln"
    and "restrict (level_r Li) (level_f Ln) = Some f'" "\<not> isLinear g2"
    and "restrict (level_v Li) (level_restV Ln) = Some rv"
    and "restrict (level_v Li) (level_v Ln) = Some v'"
    and "applyStencil (putLevel g2 (Suc i) (Ln\<lparr>level_f := f', level_restV := rv, level_v := v'\<rparr>)) (Suc i) rv
           = Some g4"
    and "getLevel g4 (Suc i) = Some L4" "Vector3_add (level_f L4) (level_r L4) = Some f''"
  shows "vcycle_down thr i g = Some (putLevel g4 (Suc i) (L4\<lparr>level_f := f''\<rparr>))"
  using assms by (simp add: vcycle_down_def Let_def)

lemma vcycle_up_unfold:
  assumes "isLinear g \<Longrightarrow> g0 = g"
    and "\<not> isLinear g \<Longrightarrow> \<exists>L vs. getLevel g (Suc i) = Some L \<and> Vector3_sub (level_v L) (level_restV L) = Some vs
            \<and> g0 = putLevel g (Suc i) (L\<lparr>level_v := vs\<rparr>)"
    and "interpolate g0 i = Some g1" "getLevel g1 i = Some Lp"
    and "Vector3_add (level_v Lp) (level_e Lp) = Some v'"
  shows "vcycle_up thr (Suc i) g
           = jacobi thr (putLevel g1 i (Lp\<lparr>level_v := v'\<rparr>)) i (postSmoothing g1)"
proof (cases "isLinear g")
  case True
  then show ?thesis using assms(1,3-5) by (simp add: vcycle_up_def Let_def)
next
  case False
  with assms(2) obtain L vs where "getLevel g (Suc i) = Some L" "Vector3_sub (level_v L) (level_restV L) = Some vs"
    "g0 = putLevel g (Suc i) (L\<lparr>level_v := vs\<rparr>)" by blast
  then show ?thesis using False assms(3-5) by (simp add: vcycle_up_def Let_def)
qed

lemma apply_val_cong:
  "stencil g' = stencil g \<Longrightarrow> gamma g' = gamma g \<Longrightarrow> level_h L' = level_h L \<Longrightarrow> apply_val g' L' = apply_val g L"
  by (simp add: apply_val_def fun_eq_iff)

lemma nth_putLevel:
  "n < length (levels g) \<Longrightarrow> levels (putLevel g n L) ! m = (if m = n then L else levels g ! m)"
  by (simp add: putLevel_def nth_list_update)

lemma ok_add:
  assumes "padded L u" "padded L w"
  shows "\<exists>s. Vector3_add u w = Some s \<and> padded L s
          \<and> (\<forall>x y z. inr u x y z \<longrightarrow> cell s x y z = cell u x y z + cell w x y z)
          \<and> (halo0 u \<and> halo0 w \<longrightarrow> halo0 s)"
proof -
  have se: "same_extent u w" using padded_same_extent[OF assms] .
  have wu: "wfv u" using assms(1) by (simp add: padded_def)
  obtain s where s: "Vector3_add u w = Some s" "same_extent s u"
    "\<forall>x y z. inr u x y z \<longrightarrow> cell s x y z = cell u x y z + cell w x y z"
    using add_props[OF se] wu by blast
  have "padded L s" using same_extent_padded[OF s(2)] assms(1) by simp
  moreover have "halo0 s" if "halo0 u" "halo0 w"
    using halo0_combine[OF s(2) se wu that] s(3) by blast
  ultimately show ?thesis using s by blast
qed

lemma ok_sub:
  assumes "padded L u" "padded L w"
  shows "\<exists>s. Vector3_sub u w = Some s \<and> padded L s
          \<and> (\<forall>x y z. inr u x y z \<longrightarrow> cell s x y z = cell u x y z - cell w x y z)
          \<and> (halo0 u \<and> halo0 w \<longrightarrow> halo0 s)"
proof -
  have se: "same_extent u w" using padded_same_extent[OF assms] .
  have wu: "wfv u" using assms(1) by (simp add: padded_def)
  obtain s where s: "Vector3_sub u w = Some s" "same_extent s u"
    "\<forall>x y z. inr u x y z \<longrightarrow> cell s x y z = cell u x y z - cell w x y z"
    using sub_props[OF se] wu by blast
  have "padded L s" using same_extent_padded[OF s(2)] assms(1) by simp
  moreover have "halo0 s" if "halo0 u" "halo0 w"
    using halo0_combine[OF s(2) se wu that] s(3) by blast
  ultimately show ?thesis using s by blast
qed

lemma padded_fill: "padded L u \<Longrightarrow> padded L (Vector3_fill u a)"
  using same_extent_padded[OF fill_props(1)] by simp

lemma vcycle_down_spec:
  assumes G: "grid_ok thr hal g" and i: "Suc i < length (levels g)"
  shows "\<exists>g1 res g2 f'.
      jacobi thr g i (preSmoothing g) = Some g1 \<and> compResidual thr g1 i = Some (res, g2)
    \<and> grid_ok thr hal g2 \<and> same_params g g2
    \<and> restrict (level_r (levels g2 ! i)) (level_f (levels g2 ! Suc i)) = Some f'
    \<and> (isLinear g \<longrightarrow>
         vcycle_down thr i g
           = Some (putLevel g2 (Suc i) ((levels g2 ! Suc i)
                     \<lparr>level_f := f', level_v := Vector3_fill (level_v (levels g2 ! Suc i)) 0\<rparr>)))
    \<and> (\<not> isLinear g \<longrightarrow>
         (\<exists>rv v' r' f''.
             restrict (level_v (levels g2 ! i)) (level_restV (levels g2 ! Suc i)) = Some rv
           \<and> restrict (level_v (levels g2 ! i)) (level_v (levels g2 ! Suc i)) = Some v'
           \<and> written (level_r (levels g2 ! Suc i)) (level_pts (levels g2 ! Suc i))
                (apply_val g (levels g2 ! Suc i) rv) r'
           \<and> Vector3_add f' r' = Some f''
           \<and> (\<forall>x y z. inr f' x y z \<longrightarrow> cell f'' x y z = cell f' x y z + cell r' x y z)
           \<and> vcycle_down thr i g
               = Some (putLevel g2 (Suc i) ((levels g2 ! Suc i)
                         \<lparr>level_f := f'', level_restV := rv, level_v := v', level_r := r'\<rparr>))))
    \<and> (\<exists>g'. vcycle_down thr i g = Some g' \<and> grid_ok thr hal g' \<and> same_params g g')"
proof -
  have i0: "i < length (levels g)" using i by simp
  obtain g1 where j: "jacobi thr g i (preSmoothing g) = Some g1"
    and G1: "grid_ok thr hal g1" and sp1: "same_params g g1"
    using ok_jacobi[OF G i0, of "preSmoothing g"] same_params_put by metis
  have l1: "Suc i < length (levels g1)" "i < length (levels g1)"
    using i sp1 by (simp_all add: same_params_def)
  obtain res g2 where c: "compResidual thr g1 i = Some (res, g2)"
    and G2: "grid_ok thr hal g2" and sp12: "same_params g1 g2"
    using ok_compResidual[OF G1 l1(2)] same_params_put by metis
  have sp: "same_params g g2" using same_params_trans[OF sp1 sp12] .
  have l2: "Suc i < length (levels g2)" "i < length (levels g2)"
    using i sp by (simp_all add: same_params_def)
  have lin: "isLinear g2 = isLinear g" "stencil g2 = stencil g" "gamma g2 = gamma g"
    using sp by (simp_all add: same_params_def)
  define Li where "Li = levels g2 ! i"
  define Ln where "Ln = levels g2 ! Suc i"
  note li = grid_ok_level[OF G2 l2(2), folded Li_def]
  note ln = grid_ok_level[OF G2 l2(1), folded Ln_def]
  have co: "coarsens Li Ln" using G2 l2(1) by (simp add: grid_ok_def wf_grid_def Li_def Ln_def)
  have pi: "padded Li (level_r Li)" "padded Li (level_v Li)"
    using li(1) by (simp_all add: wf_level_def)
  have pn: "padded Ln (level_f Ln)" "padded Ln (level_v Ln)" "padded Ln (level_r Ln)"
    "padded Ln (level_e Ln)" "\<not> isLinear g \<Longrightarrow> padded Ln (level_restV Ln)"
    using ln(1) lin(1) by (simp_all add: wf_level_def)
  obtain f' where f': "restrict (level_r Li) (level_f Ln) = Some f'" "padded Ln f'"
    "halo0 (level_f Ln) \<longrightarrow> halo0 f'"
    using ok_restrict[OF co pi(1) pn(1)] by blast
  have gn1: "getLevel g1 (Suc i) = Some (levels g1 ! Suc i)"
    using grid_ok_level(3)[OF G1 l1(1)] .
  have put_ok: "grid_ok thr hal (putLevel g2 (Suc i) L')"
    if "same_dims Ln L'" "wf_level (isLinear g) L'" "hal \<longrightarrow> halo_level L'" for L'
    using grid_ok_put[OF G2 l2(1), of L'] that by (simp add: Ln_def lin)
  have A: "isLinear g \<longrightarrow>
         vcycle_down thr i g = Some (putLevel g2 (Suc i) (Ln\<lparr>level_f := f', level_v := Vector3_fill (level_v Ln) 0\<rparr>))
       \<and> grid_ok thr hal (putLevel g2 (Suc i) (Ln\<lparr>level_f := f', level_v := Vector3_fill (level_v Ln) 0\<rparr>))"
  proof
    assume L: "isLinear g"
    define L' where "L' = Ln\<lparr>level_f := f', level_v := Vector3_fill (level_v Ln) 0\<rparr>"
    have "vcycle_down thr i g = Some (putLevel g2 (Suc i) L')"
      using vcycle_down_linear[OF j gn1 c li(3) ln(3) f'(1)] L lin by (simp add: L'_def)
    moreover have "wf_level (isLinear g) L'"
      using ln(1) f'(2) padded_fill[OF pn(2)] L by (simp add: wf_level_def padded_def L'_def)
    moreover have "hal \<longrightarrow> halo_level L'"
      using ln(2) f'(3) halo0_fill[of "level_v Ln"] pn(2)
      by (auto simp: halo_level_def padded_def L'_def)
    moreover have "same_dims Ln L'" by (simp add: same_dims_def L'_def)
    ultimately show "vcycle_down thr i g = Some (putLevel g2 (Suc i) (Ln\<lparr>level_f := f', level_v := Vector3_fill (level_v Ln) 0\<rparr>))
       \<and> grid_ok thr hal (putLevel g2 (Suc i) (Ln\<lparr>level_f := f', level_v := Vector3_fill (level_v Ln) 0\<rparr>))"
      using put_ok[of L'] unfolding L'_def by blast
  qed
  have B: "\<not> isLinear g \<longrightarrow>
         (\<exists>rv v' r' f''.
             restrict (level_v Li) (level_restV Ln) = Some rv
           \<and> restrict (level_v Li) (level_v Ln) = Some v'
           \<and> written (level_r Ln) (level_pts Ln) (apply_val g Ln rv) r'
           \<and> Vector3_add f' r' = Some f''
           \<and> (\<forall>x y z. inr f' x y z \<longrightarrow> cell f'' x y z = cell f' x y z + cell r' x y z)
           \<and> vcycle_down thr i g
               = Some (putLevel g2 (Suc i) (Ln\<lparr>level_f := f'', level_restV := rv, level_v := v', level_r := r'\<rparr>))
           \<and> grid_ok thr hal (putLevel g2 (Suc i) (Ln\<lparr>level_f := f'', level_restV := rv, level_v := v', level_r := r'\<rparr>)))"
  proof
    assume N: "\<not> isLinear g"
    obtain rv where rv: "restrict (level_v Li) (level_restV Ln) = Some rv" "padded Ln rv"
      "halo0 (level_restV Ln) \<longrightarrow> halo0 rv"
      using ok_restrict[OF co pi(2) pn(5)[OF N]] by blast
    obtain v' where v': "restrict (level_v Li) (level_v Ln) = Some v'" "padded Ln v'"
      "halo0 (level_v Ln) \<longrightarrow> halo0 v'"
      using ok_restrict[OF co pi(2) pn(2)] by blast
    define L3 where "L3 = Ln\<lparr>level_f := f', level_restV := rv, level_v := v'\<rparr>"
    define g3 where "g3 = putLevel g2 (Suc i) L3"
    have d3: "same_dims Ln L3" "level_h L3 = level_h Ln" "level_r L3 = level_r Ln" "level_f L3 = f'"
      "level_pts L3 = level_pts Ln"
      by (simp_all add: L3_def same_dims_def level_pts_def)
    have w3: "wf_level (isLinear g) L3"
      using ln(1) f'(2) rv(2) v'(2) lin by (simp add: wf_level_def padded_def L3_def)
    have h3: "hal \<longrightarrow> halo_level L3"
      using ln(2) f'(3) rv(3) v'(3) by (auto simp: halo_level_def L3_def)
    have G3: "grid_ok thr hal g3"
      unfolding g3_def using put_ok[OF d3(1) w3 h3] .
    have l3: "Suc i < length (levels g3)" using l2(1) by (simp add: g3_def)
    have n3: "levels g3 ! Suc i = L3" using l2(1) by (simp add: g3_def nth_putLevel)
    have p3: "padded (levels g3 ! Suc i) rv" using rv(2) d3(1) by (simp add: n3 padded_def same_dims_def)
    obtain r' where a: "applyStencil g3 (Suc i) rv = Some (putLevel g3 (Suc i) (L3\<lparr>level_r := r'\<rparr>))"
      and wr: "written (level_r L3) (level_pts L3) (apply_val g3 L3 rv) r'"
      using ok_applyStencil[OF G3 l3 p3] unfolding n3 by blast
    define L4 where "L4 = L3\<lparr>level_r := r'\<rparr>"
    define g4 where "g4 = putLevel g2 (Suc i) L4"
    have g4: "putLevel g3 (Suc i) (L3\<lparr>level_r := r'\<rparr>) = g4"
      by (simp add: g3_def g4_def L4_def)
    have "apply_val g3 L3 = apply_val g Ln"
      by (rule apply_val_cong) (simp_all add: g3_def lin d3)
    then have wr': "written (level_r Ln) (level_pts Ln) (apply_val g Ln rv) r'"
      using wr by (simp add: d3)
    have pr': "padded Ln r'" using written_padded[OF pn(3) wr'] .
    have gl4: "getLevel g4 (Suc i) = Some L4"
      using l2(1) by (simp add: g4_def getLevel_putLevel)
    obtain f'' where f'': "Vector3_add f' r' = Some f''" "padded Ln f''"
      "\<forall>x y z. inr f' x y z \<longrightarrow> cell f'' x y z = cell f' x y z + cell r' x y z"
      "halo0 f' \<and> halo0 r' \<longrightarrow> halo0 f''"
      using ok_add[OF f'(2) pr'] by blast
    define L5 where "L5 = Ln\<lparr>level_f := f'', level_restV := rv, level_v := v', level_r := r'\<rparr>"
    have a': "applyStencil (putLevel g2 (Suc i) (Ln\<lparr>level_f := f', level_restV := rv, level_v := v'\<rparr>)) (Suc i) rv = Some g4"
      using a g4 by (simp add: g3_def L3_def)
    have f4: "Vector3_add (level_f L4) (level_r L4) = Some f''"
      using f''(1) by (simp add: L4_def L3_def)
    have "vcycle_down thr i g = Some (putLevel g4 (Suc i) (L4\<lparr>level_f := f''\<rparr>))"
      using vcycle_down_nonlinear[OF j gn1 c li(3) ln(3) f'(1) _ rv(1) v'(1) a' gl4 f4] N lin
      by simp
    moreover have "L4\<lparr>level_f := f''\<rparr> = L5"
      by (cases Ln) (simp add: L4_def L3_def L5_def)
    ultimately have vd: "vcycle_down thr i g = Some (putLevel g2 (Suc i) L5)"
      by (simp add: g4_def)
    have w5: "wf_level (isLinear g) L5"
      using ln(1) f''(2) rv(2) v'(2) pr' lin by (simp add: wf_level_def padded_def L5_def)
    have hr': "halo0 (level_r Ln) \<longrightarrow> halo0 r'"
      using halo0_written_pts[OF pn(3) _ wr'] by blast
    have h5: "hal \<longrightarrow> halo_level L5"
      using ln(2) f'(3) rv(3) v'(3) f''(4) hr' by (auto simp: halo_level_def L5_def)
    have "same_dims Ln L5" by (simp add: same_dims_def L5_def)
    then have G5: "grid_ok thr hal (putLevel g2 (Suc i) L5)"
      using put_ok w5 h5 by blast
    show "\<exists>rv v' r' f''.
             restrict (level_v Li) (level_restV Ln) = Some rv
           \<and> restrict (level_v Li) (level_v Ln) = Some v'
           \<and> written (level_r Ln) (level_pts Ln) (apply_val g Ln rv) r'
           \<and> Vector3_add f' r' = Some f''
           \<and> (\<forall>x y z. inr f' x y z \<longrightarrow> cell f'' x y z = cell f' x y z + cell r' x y z)
           \<and> vcycle_down thr i g
               = Some (putLevel g2 (Suc i) (Ln\<lparr>level_f := f'', level_restV := rv, level_v := v', level_r := r'\<rparr>))
           \<and> grid_ok thr hal (putLevel g2 (Suc i) (Ln\<lparr>level_f := f'', level_restV := rv, level_v := v', level_r := r'\<rparr>))"
      using rv(1) v'(1) wr' f''(1,3) vd G5 unfolding L5_def by blast
  qed
  have sp2: "same_params g (putLevel g2 (Suc i) L')" for L'
    using same_params_trans[OF sp same_params_put] .
  have C: "\<exists>g'. vcycle_down thr i g = Some g' \<and> grid_ok thr hal g' \<and> same_params g g'"
  proof (cases "isLinear g")
    case True
    then show ?thesis using A sp2 by blast
  next
    case False
    then show ?thesis using B sp2 by blast
  qed
  show ?thesis
    apply (rule exI[of _ g1], rule exI[of _ res], rule exI[of _ g2], rule exI[of _ f'])
    using j c G2 sp f'(1) A B C unfolding Li_def Ln_def by blast
qed

lemma vcycle_up_spec:
  assumes G: "grid_ok thr hal g" and i: "Suc i < length (levels g)"
  shows "\<exists>g0 e' v'.
      (isLinear g \<longrightarrow> g0 = g)
    \<and> (\<not> isLinear g \<longrightarrow>
         (\<exists>vs. Vector3_sub (level_v (levels g ! Suc i)) (level_restV (levels g ! Suc i)) = Some vs
            \<and> (\<forall>x y z. inr (level_v (levels g ! Suc i)) x y z \<longrightarrow>
                  cell vs x y z = cell (level_v (levels g ! Suc i)) x y z
                                  - cell (level_restV (levels g ! Suc i)) x y z)
            \<and> g0 = putLevel g (Suc i) ((levels g ! Suc i)\<lparr>level_v := vs\<rparr>)))
    \<and> interpolate_field (level_v (levels g0 ! Suc i)) (level_e (levels g0 ! i)) = Some e'
    \<and> interpolate g0 i = Some (putLevel g0 i ((levels g0 ! i)\<lparr>level_e := e'\<rparr>))
    \<and> Vector3_add (level_v (levels g0 ! i)) e' = Some v'
    \<and> (\<forall>x y z. inr e' x y z \<longrightarrow> cell v' x y z = cell (level_v (levels g0 ! i)) x y z + cell e' x y z)
    \<and> vcycle_up thr (Suc i) g
        = jacobi thr (putLevel g0 i ((levels g0 ! i)\<lparr>level_e := e', level_v := v'\<rparr>)) i (postSmoothing g)
    \<and> (\<exists>g'. vcycle_up thr (Suc i) g = Some g' \<and> grid_ok thr hal g' \<and> same_params g g')"
proof -
  have i0: "i < length (levels g)" using i by simp
  define Ln where "Ln = levels g ! Suc i"
  note ln = grid_ok_level[OF G i, folded Ln_def]
  have S: "\<exists>g0. grid_ok thr hal g0 \<and> same_params g g0 \<and> (isLinear g \<longrightarrow> g0 = g)
    \<and> (\<not> isLinear g \<longrightarrow>
         (\<exists>vs. Vector3_sub (level_v Ln) (level_restV Ln) = Some vs
            \<and> (\<forall>x y z. inr (level_v Ln) x y z \<longrightarrow> cell vs x y z = cell (level_v Ln) x y z - cell (level_restV Ln) x y z)
            \<and> g0 = putLevel g (Suc i) (Ln\<lparr>level_v := vs\<rparr>)))"
  proof (cases "isLinear g")
    case True
    then show ?thesis using G same_params_refl by blast
  next
    case False
    then have p: "padded Ln (level_v Ln)" "padded Ln (level_restV Ln)"
      using ln(1) by (simp_all add: wf_level_def)
    obtain vs where vs: "Vector3_sub (level_v Ln) (level_restV Ln) = Some vs" "padded Ln vs"
      "\<forall>x y z. inr (level_v Ln) x y z \<longrightarrow> cell vs x y z = cell (level_v Ln) x y z - cell (level_restV Ln) x y z"
      "halo0 (level_v Ln) \<and> halo0 (level_restV Ln) \<longrightarrow> halo0 vs"
      using ok_sub[OF p] by blast
    have "wf_level (isLinear g) (Ln\<lparr>level_v := vs\<rparr>)"
      using ln(1) vs(2) by (simp add: wf_level_def padded_def)
    moreover have "hal \<longrightarrow> halo_level (Ln\<lparr>level_v := vs\<rparr>)"
      using ln(2) vs(4) by (auto simp: halo_level_def)
    ultimately have "grid_ok thr hal (putLevel g (Suc i) (Ln\<lparr>level_v := vs\<rparr>))"
      using grid_ok_put[OF G i, of "Ln\<lparr>level_v := vs\<rparr>"] by (simp add: same_dims_def Ln_def)
    then show ?thesis using False vs(1,3) same_params_put by blast
  qed
  then obtain g0 where G0: "grid_ok thr hal g0" and sp0: "same_params g g0"
    and lin0: "isLinear g \<longrightarrow> g0 = g"
    and non0: "\<not> isLinear g \<longrightarrow>
         (\<exists>vs. Vector3_sub (level_v Ln) (level_restV Ln) = Some vs
            \<and> (\<forall>x y z. inr (level_v Ln) x y z \<longrightarrow> cell vs x y z = cell (level_v Ln) x y z - cell (level_restV Ln) x y z)
            \<and> g0 = putLevel g (Suc i) (Ln\<lparr>level_v := vs\<rparr>))"
    by blast
  have l0: "Suc i < length (levels g0)" "i < length (levels g0)"
    using i sp0 by (simp_all add: same_params_def)
  define Lf where "Lf = levels g0 ! i"
  obtain e' where it: "interpolate g0 i = Some (putLevel g0 i (Lf\<lparr>level_e := e'\<rparr>))"
    and fi: "interpolate_field (level_v (levels g0 ! Suc i)) (level_e Lf) = Some e'"
    and G1: "grid_ok thr hal (putLevel g0 i (Lf\<lparr>level_e := e'\<rparr>))"
    using ok_interpolate[OF G0 l0(1)] unfolding Lf_def by blast
  define g1 where "g1 = putLevel g0 i (Lf\<lparr>level_e := e'\<rparr>)"
  have l1: "i < length (levels g1)" using l0(2) by (simp add: g1_def)
  have n1: "levels g1 ! i = Lf\<lparr>level_e := e'\<rparr>" using l0(2) by (simp add: g1_def nth_putLevel)
  note lp = grid_ok_level[OF G1[folded g1_def] l1, unfolded n1]
  have p: "padded Lf (level_v Lf)" "padded Lf e'"
    using lp(1) by (simp_all add: wf_level_def padded_def)
  obtain v' where v': "Vector3_add (level_v Lf) e' = Some v'" "padded Lf v'"
    "\<forall>x y z. inr (level_v Lf) x y z \<longrightarrow> cell v' x y z = cell (level_v Lf) x y z + cell e' x y z"
    "halo0 (level_v Lf) \<and> halo0 e' \<longrightarrow> halo0 v'"
    using ok_add[OF p] by blast
  have ie: "inr e' = inr (level_v Lf)"
    using inr_same_extent[OF padded_same_extent[OF p(2,1)]] .
  define L2 where "L2 = Lf\<lparr>level_e := e', level_v := v'\<rparr>"
  have "wf_level (isLinear g1) L2"
    using lp(1) v'(2) by (simp add: wf_level_def padded_def L2_def)
  moreover have "hal \<longrightarrow> halo_level L2"
    using lp(2) v'(4) by (auto simp: halo_level_def L2_def)
  ultimately have G2: "grid_ok thr hal (putLevel g1 i L2)"
    using grid_ok_put[OF G1[folded g1_def] l1, of L2] by (simp add: same_dims_def L2_def n1)
  have g2: "putLevel g1 i L2 = putLevel g0 i L2" by (simp add: g1_def)
  have l2: "i < length (levels (putLevel g0 i L2))" using l0(2) by simp
  have va: "Vector3_add (level_v (Lf\<lparr>level_e := e'\<rparr>)) (level_e (Lf\<lparr>level_e := e'\<rparr>)) = Some v'"
    using v'(1) by simp
  have u0: "isLinear g \<Longrightarrow> g0 = g" using lin0 by simp
  have u1: "\<not> isLinear g \<Longrightarrow> \<exists>L vs. getLevel g (Suc i) = Some L \<and> Vector3_sub (level_v L) (level_restV L) = Some vs
            \<and> g0 = putLevel g (Suc i) (L\<lparr>level_v := vs\<rparr>)"
    using non0 ln(3) by blast
  have "vcycle_up thr (Suc i) g
           = jacobi thr (putLevel g1 i ((Lf\<lparr>level_e := e'\<rparr>)\<lparr>level_v := v'\<rparr>)) i (postSmoothing g1)"
    using vcycle_up_unfold[OF u0 u1 it[folded g1_def] lp(3) va] by simp
  moreover have "postSmoothing g1 = postSmoothing g" using sp0 by (simp add: g1_def same_params_def)
  ultimately have vu: "vcycle_up thr (Suc i) g = jacobi thr (putLevel g0 i L2) i (postSmoothing g)"
    by (simp add: L2_def g1_def)
  obtain g' where j: "jacobi thr (putLevel g0 i L2) i (postSmoothing g) = Some g'"
    and G': "grid_ok thr hal g'" and sp': "same_params (putLevel g0 i L2) g'"
    using ok_jacobi[OF G2[unfolded g2] l2, of "postSmoothing g"] same_params_put by metis
  have "same_params g g'"
    using same_params_trans[OF same_params_trans[OF sp0 same_params_put] sp'] .
  then have E: "\<exists>g'. vcycle_up thr (Suc i) g = Some g' \<and> grid_ok thr hal g' \<and> same_params g g'"
    using vu j G' by auto
  show ?thesis
    apply (rule exI[of _ g0], rule exI[of _ e'], rule exI[of _ v'])
    using lin0 non0 fi it v'(1,3) vu E unfolding Lf_def Ln_def L2_def ie by blast
qed

lemma for_down_inv:
  assumes "I s" "\<And>i s. 0 < i \<Longrightarrow> i \<le> n \<Longrightarrow> I s \<Longrightarrow> \<exists>s'. body i s = Some s' \<and> I s'"
  shows "\<exists>s'. for_down n body s = Some s' \<and> I s'"
  using assms
proof (induction n arbitrary: s)
  case 0
  then show ?case by simp
next
  case (Suc n)
  obtain s1 where s1: "body (Suc n) s = Some s1" "I s1"
    using Suc.prems(2)[of "Suc n" s] Suc.prems(1) by auto
  have "\<exists>s'. for_down n body s1 = Some s' \<and> I s'"
    using Suc.prems(2) by (intro Suc.IH s1(2)) auto
  then show ?case using s1(1) by simp
qed

lemma lastLevel_ok: "grid_ok thr hal g \<Longrightarrow> lastLevel g = length (levels g) - 1 \<and> 0 < length (levels g)"
  by (auto simp: grid_ok_def wf_grid_def lastLevel_def numLevels_def)

lemma lastLevel_params: "same_params g g' \<Longrightarrow> lastLevel g' = lastLevel g"
  by (simp add: same_params_def lastLevel_def numLevels_def)

lemma vcycle_spec:
  assumes G: "grid_ok thr hal g"
  shows "\<exists>g1 g2 g3 res g'.
      for_loop 1 0 (int (length (levels g) - 1)) (\<lambda>i. vcycle_down thr (nat i)) g = Some g1
    \<and> jacobi thr g1 (length (levels g) - 1) (preSmoothing g + postSmoothing g) = Some g2
    \<and> for_down (length (levels g) - 1) (vcycle_up thr) g2 = Some g3
    \<and> compResidual thr g3 0 = Some (res, g')
    \<and> vcycle thr g = Some (res, g') \<and> grid_ok thr hal g' \<and> same_params g g'"
proof -
  let ?I = "\<lambda>g'. grid_ok thr hal g' \<and> same_params g g'"
  note ll = lastLevel_ok[OF G]
  obtain g1 where d: "for_loop 1 0 (int (lastLevel g)) (\<lambda>i. vcycle_down thr (nat i)) g = Some g1" and I1: "?I g1"
  proof -
    have "\<exists>s'. for_loop 1 0 (int (lastLevel g)) (\<lambda>i. vcycle_down thr (nat i)) g = Some s' \<and> ?I s'"
    proof (rule for_loop_inv[where I = ?I])
      show "?I g" using G same_params_refl by blast
    next
      fix x s
      assume a: "?I s" "x \<in> rng 1 0 (int (lastLevel g))"
      then have "Suc (nat x) < length (levels s)"
        using ll by (auto simp: rng_def same_params_def)
      from vcycle_down_spec[OF conjunct1[OF a(1)] this]
      obtain g' where "vcycle_down thr (nat x) s = Some g'" "grid_ok thr hal g'" "same_params s g'"
        by blast
      then show "\<exists>s'. vcycle_down thr (nat x) s = Some s' \<and> ?I s'"
        using same_params_trans[OF conjunct2[OF a(1)]] by blast
    qed simp
    then show ?thesis using that by blast
  qed
  have l1: "lastLevel g1 = lastLevel g" "lastLevel g < length (levels g1)"
    "preSmoothing g1 = preSmoothing g" "postSmoothing g1 = postSmoothing g"
    using I1 ll lastLevel_params[of g g1] by (auto simp: same_params_def)
  obtain g2 where j: "jacobi thr g1 (lastLevel g1) (preSmoothing g1 + postSmoothing g1) = Some g2"
    and I2: "?I g2"
    using ok_jacobi[OF conjunct1[OF I1] l1(2), of "preSmoothing g1 + postSmoothing g1"] l1(1)
      same_params_trans[OF conjunct2[OF I1] same_params_put] by metis
  have l2: "lastLevel g2 = lastLevel g" using I2 lastLevel_params[of g g2] by simp
  obtain g3 where u: "for_down (lastLevel g2) (vcycle_up thr) g2 = Some g3" and I3: "?I g3"
  proof -
    have "\<exists>s'. for_down (lastLevel g2) (vcycle_up thr) g2 = Some s' \<and> ?I s'"
    proof (rule for_down_inv[where I = ?I])
      show "?I g2" using I2 .
    next
      fix i s
      assume a: "0 < i" "i \<le> lastLevel g2" "?I s"
      then obtain k where k: "i = Suc k" by (cases i) auto
      have "Suc k < length (levels s)"
        using a ll l2 k by (auto simp: same_params_def)
      from vcycle_up_spec[OF conjunct1[OF a(3)] this]
      obtain g' where "vcycle_up thr (Suc k) s = Some g'" "grid_ok thr hal g'" "same_params s g'"
        by blast
      then show "\<exists>s'. vcycle_up thr i s = Some s' \<and> ?I s'"
        using same_params_trans[OF conjunct2[OF a(3)]] k by blast
    qed
    then show ?thesis using that by blast
  qed
  have l3: "0 < length (levels g3)" using I3 ll by (simp add: same_params_def)
  obtain res g4 where c: "compResidual thr g3 0 = Some (res, g4)" and I4: "?I g4"
    using ok_compResidual[OF conjunct1[OF I3] l3]
      same_params_trans[OF conjunct2[OF I3] same_params_put] by metis
  have "vcycle thr g = Some (res, g4)"
    by (simp add: vcycle_def d j u c)
  moreover note d[unfolded conjunct1[OF ll]] j[unfolded l1 conjunct1[OF ll]]
    u[unfolded l2 conjunct1[OF ll]] c
  ultimately show ?thesis
    using I4 by blast
qed

lemma ok_vcycle:
  assumes "grid_ok thr hal g"
  shows "\<exists>res g'. vcycle thr g = Some (res, g') \<and> grid_ok thr hal g' \<and> same_params g g'"
  using vcycle_spec[OF assms] by blast

section \<open>Halo preservation and the outer loop\<close>

lemma halo0_new:
  assumes w: "wfv (Vector3_new a b d)"
  shows "halo0 (Vector3_new a b d)"
proof -
  have e: "Vector3_new a b d = const_field a b d 0" using w by (rule Vector3_new_const)
  show ?thesis using const_field_cell[of a b d 0] w unfolding e by (simp add: halo0_def)
qed

lemma wfv_bump: "wfv bump_field"
  by (simp add: wfv_def bump_field_def)

lemma halo0_bump: "halo0 bump_field"
proof -
  have "cell bump_field x y z = 0" if i: "inr bump_field x y z" and n: "\<not> interior bump_field x y z" for x y z
  proof -
    have c: "inr bump_field 2 2 2" "interior bump_field 2 2 2"
      by (simp_all add: inr_def interior_def bump_field_def)
    have f2: "flat_index bump_field 2 2 2 = 62"
      using flat_index_inr[OF wfv_bump c(1)] by (simp add: bump_field_def)
    have "flat_index bump_field x y z \<noteq> 62"
      using flat_index_inj[OF wfv_bump i c(1)] n c(2) f2 by auto
    moreover have "0 \<le> flat_index bump_field x y z" "flat_index bump_field x y z < 125"
      using flat_index_lt[OF wfv_bump i] by (simp_all add: bump_field_def)
    ultimately have "nat (flat_index bump_field x y z) \<noteq> 62" "nat (flat_index bump_field x y z) < 125"
      by linarith+
    then show ?thesis by (simp add: cell_def bump_field_def)
  qed
  then show ?thesis by (simp add: halo0_def)
qed

lemma padded_zero_level:
  assumes "0 < n + 2" "int ((n + 2) * (n + 2) * (n + 2)) < 2 ^ 64"
  shows "wf_level lin (zero_level n hh)" "halo_level (zero_level n hh)"
proof -
  have w: "wfv (Vector3_new (n + 2) (n + 2) (n + 2))" using assms by (intro wfv_new) simp_all
  then show "wf_level lin (zero_level n hh)"
    by (simp add: wf_level_def padded_def zero_level_def) (simp add: Vector3_new_def)
  show "halo_level (zero_level n hh)"
    using halo0_new[OF w] by (simp add: halo_level_def zero_level_def)
qed

lemma gridZ_ok: "wf_grid (\<lambda>x. 0) gridZ" "halo_grid gridZ"
proof -
  let ?L0 = "(zero_level 3 (1 / 4))\<lparr>level_f := bump_field\<rparr>" and ?L1 = "zero_level 1 (1 / 2)"
  have z: "wf_level True (zero_level 3 (1 / 4))" "halo_level (zero_level 3 (1 / 4))"
    "wf_level True ?L1" "halo_level ?L1"
    by (simp_all add: padded_zero_level)
  have "padded (zero_level 3 (1 / 4)) bump_field"
    by (simp add: padded_def wfv_bump) (simp add: bump_field_def zero_level_def)
  then have 0: "wf_level True ?L0" "halo_level ?L0"
    using z(1,2) halo0_bump by (simp_all add: wf_level_def halo_level_def padded_def)
  have c: "coarsens ?L0 ?L1" by (simp add: coarsens_def zero_level_def)
  have "coarsens ([?L0, ?L1] ! i) ([?L0, ?L1] ! Suc i)" if "Suc i < 2" for i
  proof -
    from that have "i = 0" by simp
    then show ?thesis using c by simp
  qed
  then show "wf_grid (\<lambda>x. 0) gridZ"
    using 0(1) z(3) laplace7_ok by (simp add: wf_grid_def gridZ_def) (simp add: laplace7_def)
  show "halo_grid gridZ"
    using 0(2) z(4) by (simp add: halo_grid_def gridZ_def)
qed

text \<open>
  C6. On a well-formed hierarchy whose halo cells (index 0 or \<open>Ni + 1\<close> along any axis)
  are zero in every field of every level, each engine operation returns and leaves
  a well-formed hierarchy with all halo cells zero: \<open>compResidual\<close>, \<open>jacobi\<close> and
  \<open>applyStencil\<close> on any level, \<open>restrict\<close> from a field of a level onto a field of the
  next level, \<open>interpolate\<close> onto any level but the coarsest, and a full \<open>vcycle\<close>.
\<close>

theorem halo_preservation:
  assumes "wf_grid thr g" "halo_grid g" "n < numLevels g"
  shows "(\<exists>res g'. compResidual thr g n = Some (res, g') \<and> wf_grid thr g' \<and> halo_grid g')
    \<and> (\<exists>g'. jacobi thr g n k = Some g' \<and> wf_grid thr g' \<and> halo_grid g')
    \<and> (\<forall>vin. padded (levels g ! n) vin \<longrightarrow>
          (\<exists>g'. applyStencil g n vin = Some g' \<and> wf_grid thr g' \<and> halo_grid g'))
    \<and> (\<forall>fine coarse. Suc n < numLevels g \<and> padded (levels g ! n) fine
            \<and> padded (levels g ! Suc n) coarse \<and> halo0 coarse \<longrightarrow>
          (\<exists>c'. restrict fine coarse = Some c' \<and> padded (levels g ! Suc n) c' \<and> halo0 c'))
    \<and> (Suc n < numLevels g \<longrightarrow>
          (\<exists>g'. interpolate g n = Some g' \<and> wf_grid thr g' \<and> halo_grid g'))
    \<and> (\<exists>res g'. vcycle thr g = Some (res, g') \<and> wf_grid thr g' \<and> halo_grid g')"
proof -
  have G: "grid_ok thr True g" using assms(1,2) by (simp add: grid_ok_def)
  have n: "n < length (levels g)" using assms(3) by (simp add: numLevels_def)
  have 1: "\<exists>res g'. compResidual thr g n = Some (res, g') \<and> wf_grid thr g' \<and> halo_grid g'"
    using ok_compResidual[OF G n] by (auto simp: grid_ok_def)
  have 2: "\<exists>g'. jacobi thr g n k = Some g' \<and> wf_grid thr g' \<and> halo_grid g'"
    using ok_jacobi[OF G n, of k] by (auto simp: grid_ok_def)
  have 3: "\<exists>g'. applyStencil g n vin = Some g' \<and> wf_grid thr g' \<and> halo_grid g'"
    if "padded (levels g ! n) vin" for vin
    using ok_applyStencil[OF G n that] by (auto simp: grid_ok_def)
  have 4: "\<exists>c'. restrict fine coarse = Some c' \<and> padded (levels g ! Suc n) c' \<and> halo0 c'"
    if a: "Suc n < numLevels g \<and> padded (levels g ! n) fine
            \<and> padded (levels g ! Suc n) coarse \<and> halo0 coarse" for fine coarse
  proof -
    have "coarsens (levels g ! n) (levels g ! Suc n)"
      using assms(1) a by (simp add: wf_grid_def numLevels_def)
    from ok_restrict[OF this, of fine coarse] a show ?thesis by blast
  qed
  have 5: "\<exists>g'. interpolate g n = Some g' \<and> wf_grid thr g' \<and> halo_grid g'" if "Suc n < numLevels g"
    using ok_interpolate[OF G, of n] that by (auto simp: grid_ok_def numLevels_def)
  have 6: "\<exists>res g'. vcycle thr g = Some (res, g') \<and> wf_grid thr g' \<and> halo_grid g'"
    using ok_vcycle[OF G] by (auto simp: grid_ok_def)
  show ?thesis using 1 2 3 4 5 6 by blast
qed

theorem halo_preservation_witness:
  "\<exists>res g'. vcycle (\<lambda>x. 0) gridZ = Some (res, g') \<and> wf_grid (\<lambda>x. 0) g' \<and> halo_grid g'"
proof -
  have "0 < numLevels gridZ" by (simp add: numLevels_def gridZ_def)
  from halo_preservation[OF gridZ_ok this] show ?thesis by blast
qed

lemma vcycles_length: "vcycles thr n g = Some (g', rs) \<Longrightarrow> length rs = n"
  by (induction n arbitrary: g' rs) (auto split: option.splits prod.splits)

lemma solve_loop:
  "for_loop 1 0 (int n) (\<lambda>i (grid, out). do {
       (res, grid) \<leftarrow> vcycle thr grid;
       Some (grid, out @ [IterResidual (nat i) res])
     }) (g0, out0)
   = map_option (\<lambda>(g', rs). (g', out0 @ map (\<lambda>(i, res). IterResidual i res) (zip [0..<n] rs)))
       (vcycles thr n g0)"
proof (induction n)
  case 0
  then show ?case by (simp add: for_loop.simps)
next
  case (Suc n)
  let ?body = "\<lambda>i (grid, out). do {
       (res, grid) \<leftarrow> vcycle thr grid;
       Some (grid, out @ [IterResidual (nat i) res])
     }"
  have "for_loop 1 0 (int (Suc n)) ?body (g0, out0)
      = (case for_loop 1 0 (int n) ?body (g0, out0) of None \<Rightarrow> None | Some s' \<Rightarrow> ?body (int n) s')"
    using for_loop_snoc[of 0 "int n" ?body "(g0, out0)"] by (simp add: add.commute)
  then show ?case
    unfolding Suc.IH
    by (auto split: option.splits prod.splits dest: vcycles_length)
qed

text \<open>
  C8. On a well-formed hierarchy \<open>solve\<close> returns after the initial residual and
  exactly \<open>maxiter\<close> V-cycles, whatever the residuals are: there is no test against
  a tolerance (the hierarchy the solver receives has none), and its output is the
  initial residual followed by one line per iteration \<open>0, \<dots>, maxiter - 1\<close> with the
  residual norm that V-cycle returned.
\<close>

theorem solve_runs_maxiter:
  assumes "wf_grid thr g"
  shows "\<exists>r0 g0 g' rs. compResidual thr g 0 = Some (r0, g0)
      \<and> vcycles thr (maxiter g) g0 = Some (g', rs) \<and> length rs = maxiter g
      \<and> solve thr g
          = Some (g', InitialResidual r0 # map (\<lambda>(i, res). IterResidual i res) (zip [0..<maxiter g] rs))"
proof -
  have G: "grid_ok thr False g" using assms by (simp add: grid_ok_def)
  have "0 < length (levels g)" using assms by (simp add: wf_grid_def)
  from ok_compResidual[OF G this]
  obtain r0 g0 where c: "compResidual thr g 0 = Some (r0, g0)" and G0: "grid_ok thr False g0"
    and m: "maxiter g0 = maxiter g"
    by (metis putLevel_fields(7))
  have "\<exists>g' rs. vcycles thr k g0 = Some (g', rs) \<and> grid_ok thr False g'" for k
  proof (induction k)
    case 0
    then show ?case using G0 by simp
  next
    case (Suc k)
    then obtain g1 rs where 1: "vcycles thr k g0 = Some (g1, rs)" "grid_ok thr False g1" by blast
    from ok_vcycle[OF 1(2)] obtain res g2 where "vcycle thr g1 = Some (res, g2)" "grid_ok thr False g2"
      by blast
    then show ?case using 1(1) by simp
  qed
  then obtain g' rs where v: "vcycles thr (maxiter g) g0 = Some (g', rs)" by blast
  have "solve thr g
          = Some (g', InitialResidual r0 # map (\<lambda>(i, res). IterResidual i res) (zip [0..<maxiter g] rs))"
    by (simp add: solve_def c m Let_def solve_loop v)
  then show ?thesis using c v vcycles_length[OF v] by blast
qed

theorem solve_runs_maxiter_witness:
  "\<exists>g' out. solve (\<lambda>x. 0) gridZ = Some (g', out) \<and> length out = 3"
proof -
  from solve_runs_maxiter[OF gridZ_ok(1)]
  obtain r0 g' rs where "length rs = maxiter gridZ"
    "solve (\<lambda>x. 0) gridZ
          = Some (g', InitialResidual r0 # map (\<lambda>(i, res). IterResidual i res) (zip [0..<maxiter gridZ] rs))"
    by blast
  moreover have "maxiter gridZ = 2" by (simp add: gridZ_def)
  ultimately show ?thesis by simp
qed

section \<open>The sequence of the V-cycle\<close>




end
